theory Spec2Isabelle
  imports Main "HOL-Library.Word"
begin

section \<open>NovaMint: the collection and token ledger\<close>

text \<open>
  A shallow embedding of the Solidity contract \<^verbatim>\<open>NovaMint\<close> (pragma \<^verbatim>\<open>^0.8.27\<close>).
  \<^item> \<^verbatim>\<open>uint256\<close> is a 256-bit word, \<^verbatim>\<open>address\<close> a 160-bit word, \<^verbatim>\<open>eaddress\<close> and
    \<^verbatim>\<open>externalEaddress\<close> are 32-byte handles.
  \<^item> Arithmetic of Solidity 0.8 is checked: \<^verbatim>\<open>+\<close>, \<^verbatim>\<open>+=\<close> and \<^verbatim>\<open>++\<close> revert with a panic
    when the exact sum does not fit in 256 bits. This is \<open>checked_add\<close>.
  \<^item> Allocating a memory array, \<^verbatim>\<open>new T[](n)\<close>, reverts with a panic of its own (code
    0x41) when \<open>n\<close> exceeds \<open>2^64 - 1\<close>. This is the error \<open>PanicAlloc\<close>; \<open>Panic\<close> is
    the arithmetic one (code 0x11). Gas is not modelled.
  \<^item> A \<^verbatim>\<open>mapping\<close> is a total function: a key never written reads as the zero value.
  \<^item> A function body takes the storage and returns its result together with the storage
    at the point where it returned or reverted. A revert is \<open>Inl\<close> of the error.
  \<^item> An external call of the EVM discards every write of a reverted body. This is
    \<open>transact\<close>.
  \<^item> The FHE library (\<^verbatim>\<open>FHE.fromExternal\<close>, \<^verbatim>\<open>FHE.allowThis\<close>, \<^verbatim>\<open>FHE.allow\<close>) is not
    part of the repository sources. Its answers are a parameter of each call, the
    record \<open>fhe_service\<close>; its own state is outside the ledger.
\<close>

subsection \<open>Data\<close>

type_synonym uint256 = "256 word"
type_synonym address = "160 word"
type_synonym eaddress = "256 word"
type_synonym externalEaddress = "256 word"
type_synonym bytes = "8 word list"

datatype error =
    InvalidCollection
  | SupplyExhausted
  | EmptyName
  | InvalidSupply
  | NotCollectionOwner
  | ZeroAddress
  | InvalidToken
  | Panic
  | PanicAlloc
  | FheRevert

record Collection =
  name :: string
  maxSupply :: uint256
  minted :: uint256
  creator :: address
  baseTokenId :: uint256
  hiddenOwner :: eaddress
  exists :: bool


datatype event =
    CollectionCreated uint256 address string uint256 eaddress
  | HiddenOwnerUpdated uint256 eaddress
  | Minted uint256 uint256 address
  | Transfer address address uint256

text \<open>
  The storage of the contract: the two counters and the four mappings, in the order of
  their declaration, and the log of the events emitted so far.
\<close>

record ledger =
  collectionCount :: uint256
  nextTokenId :: uint256
  collections :: "uint256 \<Rightarrow> Collection"
  tokenToCollection :: "uint256 \<Rightarrow> uint256"
  owners :: "uint256 \<Rightarrow> address"
  balances :: "address \<Rightarrow> uint256"
  events :: "event list"

text \<open>
  The answers of the FHE library within one call: \<open>fromExternal input proof sender\<close>
  is the validated handle, or \<open>None\<close> when the library reverts; \<open>allowThis\<close> and
  \<open>allow\<close> tell whether the grant went through.
\<close>

record fhe_service =
  fromExternal :: "externalEaddress \<Rightarrow> bytes \<Rightarrow> address \<Rightarrow> eaddress option"
  allowThis :: "eaddress \<Rightarrow> bool"
  allow :: "eaddress \<Rightarrow> address \<Rightarrow> bool"

definition zero_collection :: Collection where
  "zero_collection =
     \<lparr>name = [], maxSupply = 0, minted = 0, creator = 0, baseTokenId = 0,
      hiddenOwner = 0, exists = False\<rparr>"


text \<open>The storage after deployment: \<^verbatim>\<open>_nextTokenId = 1\<close>, everything else zero.\<close>

definition initial :: ledger where
  "initial =
     \<lparr>collectionCount = 0, nextTokenId = 1,
      collections = (\<lambda>_. zero_collection),
      tokenToCollection = (\<lambda>_. 0),
      owners = (\<lambda>_. 0),
      balances = (\<lambda>_. 0),
      events = []\<rparr>"

subsection \<open>Checked arithmetic and external calls\<close>

definition checked_add :: "uint256 \<Rightarrow> uint256 \<Rightarrow> uint256 option" where
  "checked_add a b = (if unat a + unat b < 2 ^ 256 then Some (a + b) else None)"

definition transact ::
  "(ledger \<Rightarrow> (error + 'a) \<times> ledger) \<Rightarrow> ledger \<Rightarrow> (error + 'a) \<times> ledger" where
  "transact body s =
     (case body s of
        (Inl e, _) \<Rightarrow> (Inl e, s)
      | (Inr r, s') \<Rightarrow> (Inr r, s'))"

subsection \<open>State-changing functions\<close>

definition onlyCollectionOwner ::
  "address \<Rightarrow> uint256 \<Rightarrow> (ledger \<Rightarrow> (error + 'a) \<times> ledger) \<Rightarrow> ledger
     \<Rightarrow> (error + 'a) \<times> ledger" where
  "onlyCollectionOwner sender cid body s =
     (if \<not> exists (collections s cid) then (Inl InvalidCollection, s)
      else if creator (collections s cid) \<noteq> sender then (Inl NotCollectionOwner, s)
      else body s)"

definition createCollection ::
  "fhe_service \<Rightarrow> address \<Rightarrow> string \<Rightarrow> uint256 \<Rightarrow> externalEaddress \<Rightarrow> bytes \<Rightarrow> ledger
     \<Rightarrow> (error + uint256) \<times> ledger" where
  "createCollection fhe sender collectionName maxSupply' hiddenOwnerInput inputProof s =
     (if length collectionName = 0 then (Inl EmptyName, s)
      else if maxSupply' = 0 then (Inl InvalidSupply, s)
      else
        (case fromExternal fhe hiddenOwnerInput inputProof sender of
           None \<Rightarrow> (Inl FheRevert, s)
         | Some encryptedOwner \<Rightarrow>
            (if \<not> allowThis fhe encryptedOwner then (Inl FheRevert, s)
             else if \<not> allow fhe encryptedOwner sender then (Inl FheRevert, s)
             else
               (case checked_add (collectionCount s) 1 of
                  None \<Rightarrow> (Inl Panic, s)
                | Some collectionId \<Rightarrow>
                   (let s1 = s\<lparr>collectionCount := collectionId\<rparr>;
                        baseId = nextTokenId s1
                    in
                      (case checked_add (nextTokenId s1) maxSupply' of
                         None \<Rightarrow> (Inl Panic, s1)
                       | Some next \<Rightarrow>
                          (let s2 = s1\<lparr>nextTokenId := next\<rparr>;
                               s3 = s2\<lparr>collections := (collections s2)
                                      (collectionId :=
                                         \<lparr>name = collectionName,
                                          maxSupply = maxSupply',
                                          minted = 0,
                                          creator = sender,
                                          baseTokenId = baseId,
                                          hiddenOwner = encryptedOwner,
                                          exists = True\<rparr>)\<rparr>;
                               s4 = s3\<lparr>events := events s3 @
                                      [CollectionCreated collectionId sender collectionName
                                         maxSupply' encryptedOwner]\<rparr>
                           in (Inr collectionId, s4))))))))"

definition setHiddenOwner ::
  "fhe_service \<Rightarrow> address \<Rightarrow> uint256 \<Rightarrow> externalEaddress \<Rightarrow> bytes \<Rightarrow> ledger
     \<Rightarrow> (error + unit) \<times> ledger" where
  "setHiddenOwner fhe sender collectionId hiddenOwnerInput inputProof =
     onlyCollectionOwner sender collectionId (\<lambda>s.
       (case fromExternal fhe hiddenOwnerInput inputProof sender of
          None \<Rightarrow> (Inl FheRevert, s)
        | Some encryptedOwner \<Rightarrow>
           (let s1 = s\<lparr>collections := (collections s)
                       (collectionId :=
                          (collections s collectionId)\<lparr>hiddenOwner := encryptedOwner\<rparr>)\<rparr>
            in
              if \<not> allowThis fhe encryptedOwner then (Inl FheRevert, s1)
              else if \<not> allow fhe encryptedOwner sender then (Inl FheRevert, s1)
              else
                (Inr (),
                 s1\<lparr>events := events s1 @
                      [HiddenOwnerUpdated collectionId encryptedOwner]\<rparr>))))"

definition mint :: "address \<Rightarrow> uint256 \<Rightarrow> ledger \<Rightarrow> (error + uint256) \<times> ledger" where
  "mint sender collectionId s =
     (let collection = collections s collectionId in
        if \<not> exists collection then (Inl InvalidCollection, s)
        else if minted collection \<ge> maxSupply collection then (Inl SupplyExhausted, s)
        else
          (case checked_add (baseTokenId collection) (minted collection) of
             None \<Rightarrow> (Inl Panic, s)
           | Some tokenId \<Rightarrow>
              (case checked_add (minted collection) 1 of
                 None \<Rightarrow> (Inl Panic, s)
               | Some m \<Rightarrow>
                  (let s1 = s\<lparr>collections := (collections s)
                              (collectionId := collection\<lparr>minted := m\<rparr>)\<rparr>;
                       s2 = s1\<lparr>owners := (owners s1)(tokenId := sender)\<rparr>
                   in
                     (case checked_add (balances s2 sender) 1 of
                        None \<Rightarrow> (Inl Panic, s2)
                      | Some b \<Rightarrow>
                         (let s3 = s2\<lparr>balances := (balances s2)(sender := b)\<rparr>;
                              s4 = s3\<lparr>tokenToCollection :=
                                     (tokenToCollection s3)(tokenId := collectionId)\<rparr>;
                              s5 = s4\<lparr>events := events s4 @
                                     [Minted collectionId tokenId sender,
                                      Transfer 0 sender tokenId]\<rparr>
                          in (Inr tokenId, s5)))))))"

subsection \<open>Views\<close>




text \<open>
  The view \<^verbatim>\<open>hiddenOwner\<close> shares its name with the field of the record, and
  \<^verbatim>\<open>name\<close> likewise: they are \<open>hiddenOwner_view\<close> and \<open>name_view\<close> here.
\<close>

definition hiddenOwner_view :: "ledger \<Rightarrow> uint256 \<Rightarrow> error + eaddress" where
  "hiddenOwner_view s collectionId =
     (if \<not> exists (collections s collectionId) then Inl InvalidCollection
      else Inr (hiddenOwner (collections s collectionId)))"

definition totalCollections :: "ledger \<Rightarrow> uint256" where
  "totalCollections s = collectionCount s"

definition name_view :: string where
  "name_view = ''NovaMint''"

definition symbol :: string where
  "symbol = ''NOVA''"

definition mintedCount :: "ledger \<Rightarrow> uint256 \<Rightarrow> error + uint256" where
  "mintedCount s collectionId =
     (if \<not> exists (collections s collectionId) then Inl InvalidCollection
      else Inr (minted (collections s collectionId)))"

definition ownerOf :: "ledger \<Rightarrow> uint256 \<Rightarrow> error + address" where
  "ownerOf s tokenId =
     (let owner = owners s tokenId in
        if owner = 0 then Inl InvalidToken else Inr owner)"

definition balanceOf :: "ledger \<Rightarrow> address \<Rightarrow> error + uint256" where
  "balanceOf s owner = (if owner = 0 then Inl ZeroAddress else Inr (balances s owner))"

definition tokenCollection :: "ledger \<Rightarrow> uint256 \<Rightarrow> error + uint256" where
  "tokenCollection s tokenId =
     (let collectionId = tokenToCollection s tokenId in
        if collectionId = 0 then Inl InvalidToken else Inr collectionId)"

definition tokenExists :: "ledger \<Rightarrow> uint256 \<Rightarrow> bool" where
  "tokenExists s tokenId = (owners s tokenId \<noteq> 0)"

subsection \<open>Transactions and reachable states\<close>

datatype call =
    CreateCollection string uint256 externalEaddress bytes
  | SetHiddenOwner uint256 externalEaddress bytes
  | Mint uint256

datatype outcome =
    Reverted error
  | Created uint256
  | Updated
  | MintedToken uint256

datatype tx = Tx (tx_sender: address) (tx_fhe: fhe_service) (tx_call: call)

fun exec :: "tx \<Rightarrow> ledger \<Rightarrow> outcome \<times> ledger" where
  "exec (Tx sender fhe (CreateCollection collectionName maxSupply' input proof)) s =
     (case transact (createCollection fhe sender collectionName maxSupply' input proof) s of
        (Inl e, s') \<Rightarrow> (Reverted e, s')
      | (Inr collectionId, s') \<Rightarrow> (Created collectionId, s'))"
| "exec (Tx sender fhe (SetHiddenOwner collectionId input proof)) s =
     (case transact (setHiddenOwner fhe sender collectionId input proof) s of
        (Inl e, s') \<Rightarrow> (Reverted e, s')
      | (Inr _, s') \<Rightarrow> (Updated, s'))"
| "exec (Tx sender fhe (Mint collectionId)) s =
     (case transact (mint sender collectionId) s of
        (Inl e, s') \<Rightarrow> (Reverted e, s')
      | (Inr tokenId, s') \<Rightarrow> (MintedToken tokenId, s'))"

fun run :: "ledger \<Rightarrow> tx list \<Rightarrow> outcome list \<times> ledger" where
  "run s [] = ([], s)"
| "run s (t # ts) =
     (case exec t s of
        (out, s') \<Rightarrow> (case run s' ts of (outs, s'') \<Rightarrow> (out # outs, s'')))"

text \<open>
  The states the contract can be in: the storage after deployment, and the storage after
  any transaction on such a state.
\<close>

inductive reachable :: "ledger \<Rightarrow> bool" where
  reachable_initial: "reachable initial"
| reachable_exec: "reachable s \<Longrightarrow> reachable (snd (exec t s))"

subsection \<open>The net effect of a successful call\<close>

text \<open>
  The storage after a successful \<^verbatim>\<open>createCollection\<close>, \<^verbatim>\<open>setHiddenOwner\<close> and
  \<^verbatim>\<open>mint\<close>, written as one update. The lemmas \<open>createCollection_Inr_iff\<close>,
  \<open>setHiddenOwner_Inr_iff\<close> and \<open>mint_Inr_iff\<close> prove that the functions above return
  exactly these states, and when.
\<close>

definition create_post ::
  "address \<Rightarrow> string \<Rightarrow> uint256 \<Rightarrow> eaddress \<Rightarrow> ledger \<Rightarrow> ledger" where
  "create_post sender nm m enc s =
     s\<lparr>collectionCount := collectionCount s + 1,
       nextTokenId := nextTokenId s + m,
       collections := (collections s)
         (collectionCount s + 1 :=
            \<lparr>name = nm, maxSupply = m, minted = 0, creator = sender,
             baseTokenId = nextTokenId s, hiddenOwner = enc, exists = True\<rparr>),
       events := events s @ [CollectionCreated (collectionCount s + 1) sender nm m enc]\<rparr>"

definition set_post :: "uint256 \<Rightarrow> eaddress \<Rightarrow> ledger \<Rightarrow> ledger" where
  "set_post cid enc s =
     s\<lparr>collections := (collections s)(cid := (collections s cid)\<lparr>hiddenOwner := enc\<rparr>),
       events := events s @ [HiddenOwnerUpdated cid enc]\<rparr>"

definition mint_post :: "address \<Rightarrow> uint256 \<Rightarrow> ledger \<Rightarrow> ledger" where
  "mint_post sender cid s =
     (let c = collections s cid; tid = baseTokenId c + minted c in
      s\<lparr>collections := (collections s)(cid := c\<lparr>minted := minted c + 1\<rparr>),
        owners := (owners s)(tid := sender),
        balances := (balances s)(sender := balances s sender + 1),
        tokenToCollection := (tokenToCollection s)(tid := cid),
        events := events s @ [Minted cid tid sender, Transfer 0 sender tid]\<rparr>)"

subsection \<open>Traces\<close>

text \<open>The ids returned by the successful creations of a trace, in order.\<close>

fun created_ids :: "outcome list \<Rightarrow> uint256 list" where
  "created_ids [] = []"
| "created_ids (Created i # outs) = i # created_ids outs"
| "created_ids (_ # outs) = created_ids outs"

text \<open>The token ids returned by the successful mints of a trace, in order.\<close>

fun minted_tokens :: "outcome list \<Rightarrow> uint256 list" where
  "minted_tokens [] = []"
| "minted_tokens (MintedToken t # outs) = t # minted_tokens outs"
| "minted_tokens (_ # outs) = minted_tokens outs"

text \<open>The number of successful mints that principal \<open>p\<close> made in a trace.\<close>

fun mints_by :: "address \<Rightarrow> tx list \<Rightarrow> outcome list \<Rightarrow> nat" where
  "mints_by p (t # ts) (MintedToken _ # outs) =
     (if tx_sender t = p then 1 else 0) + mints_by p ts outs"
| "mints_by p (t # ts) (_ # outs) = mints_by p ts outs"
| "mints_by p _ _ = 0"

subsection \<open>Ranges, totals and the invariant\<close>

text \<open>
  The token ids reserved for a collection, \<open>[baseTokenId, baseTokenId + maxSupply - 1]\<close>,
  and the part of them already handed out.
\<close>

definition reserved_range :: "Collection \<Rightarrow> uint256 set" where
  "reserved_range c = {baseTokenId c .. baseTokenId c + maxSupply c - 1}"

definition minted_range :: "Collection \<Rightarrow> uint256 set" where
  "minted_range c =
     {t. unat (baseTokenId c) \<le> unat t \<and> unat t < unat (baseTokenId c) + unat (minted c)}"


definition total_minted :: "ledger \<Rightarrow> nat" where
  "total_minted s = (\<Sum>i | exists (collections s i). unat (minted (collections s i)))"

definition total_supply :: "ledger \<Rightarrow> nat" where
  "total_supply s = (\<Sum>i | exists (collections s i). unat (maxSupply (collections s i)))"

definition total_balance :: "ledger \<Rightarrow> nat" where
  "total_balance s = (\<Sum>a \<in> UNIV. unat (balances s a))"

text \<open>The sum of \<^verbatim>\<open>balanceOf\<close> over the principals for which it does not revert.\<close>

definition balance_sum :: "ledger \<Rightarrow> nat" where
  "balance_sum s =
     (\<Sum>p \<in> UNIV. case balanceOf s p of Inl _ \<Rightarrow> 0 | Inr b \<Rightarrow> unat b)"

definition inv_ids :: "ledger \<Rightarrow> bool" where
  "inv_ids s \<longleftrightarrow>
     (\<forall>i. exists (collections s i) \<longleftrightarrow> i \<noteq> 0 \<and> i \<le> collectionCount s)"

definition inv_supply :: "ledger \<Rightarrow> bool" where
  "inv_supply s \<longleftrightarrow>
     (\<forall>i. exists (collections s i) \<longrightarrow>
        maxSupply (collections s i) \<noteq> 0 \<and>
        minted (collections s i) \<le> maxSupply (collections s i) \<and>
        baseTokenId (collections s i) \<noteq> 0 \<and>
        unat (baseTokenId (collections s i)) + unat (maxSupply (collections s i))
          \<le> unat (nextTokenId s))"

definition inv_disjoint :: "ledger \<Rightarrow> bool" where
  "inv_disjoint s \<longleftrightarrow>
     (\<forall>i j. exists (collections s i) \<and> exists (collections s j) \<and> i \<noteq> j \<longrightarrow>
        unat (baseTokenId (collections s i)) + unat (maxSupply (collections s i))
          \<le> unat (baseTokenId (collections s j)) \<or>
        unat (baseTokenId (collections s j)) + unat (maxSupply (collections s j))
          \<le> unat (baseTokenId (collections s i)))"

definition inv_next :: "ledger \<Rightarrow> bool" where
  "inv_next s \<longleftrightarrow> total_supply s + 1 = unat (nextTokenId s)"

definition inv_balance :: "ledger \<Rightarrow> bool" where
  "inv_balance s \<longleftrightarrow> total_balance s = total_minted s"

definition inv_tokens :: "ledger \<Rightarrow> bool" where
  "inv_tokens s \<longleftrightarrow>
     (\<forall>t. tokenToCollection s t \<noteq> 0 \<longrightarrow>
        exists (collections s (tokenToCollection s t)) \<and>
        t \<in> minted_range (collections s (tokenToCollection s t))) \<and>
     (\<forall>c t. exists (collections s c) \<and> t \<in> minted_range (collections s c) \<longrightarrow>
        tokenToCollection s t = c)"

definition ledger_inv :: "ledger \<Rightarrow> bool" where
  "ledger_inv s \<longleftrightarrow>
     inv_ids s \<and> inv_supply s \<and> inv_disjoint s \<and> inv_next s \<and> inv_balance s \<and>
     inv_tokens s"

text \<open>
  The part of the invariant that rests on the sender of a transaction not being the zero
  address. \<^verbatim>\<open>msg.sender\<close> never is: no account signs for the zero address and no contract
  lives there. The contract itself reads a zero owner as "not minted" and emits
  \<^verbatim>\<open>Transfer(address(0), \<dots>)\<close> for "from nobody".
\<close>

definition inv_owners :: "ledger \<Rightarrow> bool" where
  "inv_owners s \<longleftrightarrow>
     balances s 0 = 0 \<and> (\<forall>t. owners s t \<noteq> 0 \<longleftrightarrow> tokenToCollection s t \<noteq> 0)"

subsection \<open>A scenario\<close>

text \<open>
  A collaborator that accepts every input and hands the input back as the handle, three
  principals, and the run: create ("Genesis", 2) as A, mint as B, mint as C, mint as B.
  A second collection ("Second", 3), created by B after "Genesis", gives a state with two
  collections; and \<open>2^64\<close> creations in a row give a state with \<open>2^64\<close> collections.
\<close>

definition fhe_ok :: fhe_service where
  "fhe_ok = \<lparr>fromExternal = (\<lambda>h _ _. Some h), allowThis = (\<lambda>_. True), allow = (\<lambda>_ _. True)\<rparr>"

definition principal_A :: address where
  "principal_A = 10"

definition principal_B :: address where
  "principal_B = 11"

definition principal_C :: address where
  "principal_C = 12"

definition genesis_tx :: tx where
  "genesis_tx = Tx principal_A fhe_ok (CreateCollection ''Genesis'' 2 77 [])"

definition genesis :: ledger where
  "genesis = snd (exec genesis_tx initial)"

definition second_tx :: tx where
  "second_tx = Tx principal_B fhe_ok (CreateCollection ''Second'' 3 78 [])"

definition two_collections :: ledger where
  "two_collections = snd (exec second_tx genesis)"


definition scenario :: "tx list" where
  "scenario =
     [genesis_tx, Tx principal_B fhe_ok (Mint 1), Tx principal_C fhe_ok (Mint 1),
      Tx principal_B fhe_ok (Mint 1)]"

section \<open>Lemmas\<close>

subsection \<open>Checked arithmetic\<close>

lemma unat_uint256_bound: "unat (a :: uint256) < 2 ^ 256"
  using unsigned_less [of a, where 'a = nat] by simp

lemma checked_add_Some_iff:
  "checked_add a b = Some c \<longleftrightarrow> unat a + unat b < 2 ^ 256 \<and> c = a + b"
  by (auto simp: checked_add_def)

lemma checked_add_None_iff:
  "checked_add a b = None \<longleftrightarrow> \<not> unat a + unat b < 2 ^ 256"
  by (auto simp: checked_add_def)

lemma unat_checked_sum:
  fixes a b :: uint256
  assumes "unat a + unat b < 2 ^ 256"
  shows "unat (a + b) = unat a + unat b"
  using assms by (simp add: unat_add_lem [THEN iffD1])

lemma unat_succ:
  fixes a :: uint256
  assumes "unat a < unat (b :: uint256)"
  shows "unat (a + 1) = unat a + 1"
proof -
  have "unat a + unat (1 :: uint256) < 2 ^ 256"
    using assms unat_uint256_bound [of b] by simp
  then show ?thesis
    using unat_checked_sum [of a 1] by simp
qed




subsection \<open>When a call succeeds, and what it leaves\<close>

text \<open>
  Each state-changing function returns \<open>Inr\<close> exactly under the conditions listed, and
  then the storage is the one-step update of the previous subsection.
\<close>

lemma mint_Inr_iff:
  "mint sender cid s = (Inr tid, s') \<longleftrightarrow>
     (exists (collections s cid) \<and>
      unat (minted (collections s cid)) < unat (maxSupply (collections s cid)) \<and>
      unat (baseTokenId (collections s cid)) + unat (minted (collections s cid)) < 2 ^ 256 \<and>
      unat (balances s sender) + 1 < 2 ^ 256 \<and>
      tid = baseTokenId (collections s cid) + minted (collections s cid) \<and>
      s' = mint_post sender cid s)"
proof -
  have m: "unat (minted (collections s cid)) < unat (maxSupply (collections s cid))
      \<Longrightarrow> unat (minted (collections s cid)) + 1 < 2 ^ 256"
    using unat_uint256_bound [of "maxSupply (collections s cid)"] by linarith
  show ?thesis
    unfolding mint_def mint_post_def Let_def
    using m
    by (auto simp: checked_add_def word_le_nat_alt not_le split: option.splits)
qed

lemma createCollection_Inr_iff:
  "createCollection fhe sender nm m inp pf s = (Inr cid, s') \<longleftrightarrow>
     (nm \<noteq> [] \<and> m \<noteq> 0 \<and>
      (\<exists>enc. fromExternal fhe inp pf sender = Some enc \<and> allowThis fhe enc \<and>
         allow fhe enc sender \<and> s' = create_post sender nm m enc s) \<and>
      unat (collectionCount s) + 1 < 2 ^ 256 \<and>
      unat (nextTokenId s) + unat m < 2 ^ 256 \<and>
      cid = collectionCount s + 1)"
  unfolding createCollection_def create_post_def Let_def
  by (auto simp: checked_add_def split: option.splits)

lemma setHiddenOwner_Inr_iff:
  "setHiddenOwner fhe sender cid inp pf s = (Inr u, s') \<longleftrightarrow>
     (exists (collections s cid) \<and> creator (collections s cid) = sender \<and>
      (\<exists>enc. fromExternal fhe inp pf sender = Some enc \<and> allowThis fhe enc \<and>
         allow fhe enc sender \<and> s' = set_post cid enc s))"
  unfolding setHiddenOwner_def onlyCollectionOwner_def set_post_def Let_def
  by (auto split: option.splits)

lemma setHiddenOwner_missing:
  "\<not> exists (collections s cid) \<Longrightarrow>
     setHiddenOwner fhe sender cid inp pf s = (Inl InvalidCollection, s)"
  by (simp add: setHiddenOwner_def onlyCollectionOwner_def)

lemma setHiddenOwner_not_owner:
  "exists (collections s cid) \<Longrightarrow> creator (collections s cid) \<noteq> sender \<Longrightarrow>
     setHiddenOwner fhe sender cid inp pf s = (Inl NotCollectionOwner, s)"
  by (simp add: setHiddenOwner_def onlyCollectionOwner_def)

lemma mint_exhausted:
  "fst (mint sender cid s) = Inl SupplyExhausted \<longleftrightarrow>
     exists (collections s cid) \<and> maxSupply (collections s cid) \<le> minted (collections s cid)"
  by (simp add: mint_def Let_def split: option.splits)

lemma transact_Inr_iff: "transact body s = (Inr r, s') \<longleftrightarrow> body s = (Inr r, s')"
  by (auto simp: transact_def split: prod.splits sum.splits)

lemma transact_Inl_iff:
  "transact body s = (Inl e, s') \<longleftrightarrow> (\<exists>d. body s = (Inl e, d)) \<and> s' = s"
  by (auto simp: transact_def split: prod.splits sum.splits)

lemma fst_transact: "fst (transact body s) = fst (body s)"
  by (simp add: transact_def split: prod.splits sum.splits)

text \<open>
  The checks of the three functions come before their writes: when one of them reverts
  with an error of its own, or because the validation of the encrypted input fails,
  nothing has been written yet. Only a panic of the checked arithmetic, or a grant that
  fails after \<^verbatim>\<open>setHiddenOwner\<close> has stored the new handle, leaves writes for the EVM to
  discard.
\<close>

lemma createCollection_checks_first:
  "createCollection fhe sender nm m inp pf s = (Inl e, d) \<Longrightarrow> e \<noteq> Panic \<Longrightarrow> d = s"
  by (auto simp: createCollection_def Let_def split: if_splits option.splits)

lemma mint_checks_first:
  "mint sender cid s = (Inl e, d) \<Longrightarrow> e \<noteq> Panic \<Longrightarrow> d = s"
  by (auto simp: mint_def Let_def split: if_splits option.splits)

lemma setHiddenOwner_checks_first:
  "setHiddenOwner fhe sender cid inp pf s = (Inl e, d) \<Longrightarrow>
     e \<noteq> FheRevert \<or> fromExternal fhe inp pf sender = None \<Longrightarrow> d = s"
  by (auto simp: setHiddenOwner_def onlyCollectionOwner_def Let_def
      split: if_splits option.splits)


subsection \<open>Transactions\<close>

text \<open>Every transaction either leaves the storage as it was or is one of three steps.\<close>

lemma exec_cases:
  assumes "exec t s = (out, s')"
  obtains
    (reverted) e where "out = Reverted e" "s' = s"
  | (created) nm m enc where "out = Created (collectionCount s + 1)"
      "nm \<noteq> []" "m \<noteq> 0" "unat (collectionCount s) + 1 < 2 ^ 256"
      "unat (nextTokenId s) + unat m < 2 ^ 256"
      "s' = create_post (tx_sender t) nm m enc s"
  | (updated) cid enc where "out = Updated" "exists (collections s cid)"
      "creator (collections s cid) = tx_sender t" "s' = set_post cid enc s"
  | (minted) cid where
      "out = MintedToken (baseTokenId (collections s cid) + minted (collections s cid))"
      "exists (collections s cid)"
      "unat (minted (collections s cid)) < unat (maxSupply (collections s cid))"
      "unat (baseTokenId (collections s cid)) + unat (minted (collections s cid)) < 2 ^ 256"
      "unat (balances s (tx_sender t)) + 1 < 2 ^ 256"
      "s' = mint_post (tx_sender t) cid s"
proof (cases t)
  case (Tx sender fhe c)
  show ?thesis
  proof (cases c)
    case (CreateCollection nm m inp pf)
    show ?thesis
    proof (cases "transact (createCollection fhe sender nm m inp pf) s")
      case (Pair r d)
      show ?thesis
      proof (cases r)
        case (Inl e)
        from Pair Inl have "d = s"
          by (simp add: transact_Inl_iff)
        moreover from assms Tx CreateCollection Pair Inl have "out = Reverted e" "s' = d"
          by simp_all
        ultimately show ?thesis
          using reverted by simp
      next
        case (Inr cid)
        from assms Tx CreateCollection Pair Inr have "out = Created cid" "s' = d"
          by simp_all
        moreover from Pair Inr have "createCollection fhe sender nm m inp pf s = (Inr cid, d)"
          by (simp add: transact_Inr_iff)
        ultimately show ?thesis
          using created [of nm m] Tx by (auto simp: createCollection_Inr_iff)
      qed
    qed
  next
    case (SetHiddenOwner cid inp pf)
    show ?thesis
    proof (cases "transact (setHiddenOwner fhe sender cid inp pf) s")
      case (Pair r d)
      show ?thesis
      proof (cases r)
        case (Inl e)
        from Pair Inl have "d = s"
          by (simp add: transact_Inl_iff)
        moreover from assms Tx SetHiddenOwner Pair Inl have "out = Reverted e" "s' = d"
          by simp_all
        ultimately show ?thesis
          using reverted by simp
      next
        case (Inr u)
        from assms Tx SetHiddenOwner Pair Inr have "out = Updated" "s' = d"
          by simp_all
        moreover from Pair Inr have "setHiddenOwner fhe sender cid inp pf s = (Inr u, d)"
          by (simp add: transact_Inr_iff)
        ultimately show ?thesis
          using updated [of cid] Tx by (auto simp: setHiddenOwner_Inr_iff)
      qed
    qed
  next
    case (Mint cid)
    show ?thesis
    proof (cases "transact (mint sender cid) s")
      case (Pair r d)
      show ?thesis
      proof (cases r)
        case (Inl e)
        from Pair Inl have "d = s"
          by (simp add: transact_Inl_iff)
        moreover from assms Tx Mint Pair Inl have "out = Reverted e" "s' = d"
          by simp_all
        ultimately show ?thesis
          using reverted by simp
      next
        case (Inr tid)
        from assms Tx Mint Pair Inr have "out = MintedToken tid" "s' = d"
          by simp_all
        moreover from Pair Inr have "mint sender cid s = (Inr tid, d)"
          by (simp add: transact_Inr_iff)
        ultimately show ?thesis
          using minted [of cid] Tx by (auto simp: mint_Inr_iff)
      qed
    qed
  qed
qed

lemma run_Cons:
  "exec t s = (out, s') \<Longrightarrow>
     fst (run s (t # ts)) = out # fst (run s' ts) \<and> snd (run s (t # ts)) = snd (run s' ts)"
  by (simp split: prod.splits)

lemma run_snoc: "snd (run s (ts @ [t])) = snd (exec t (snd (run s ts)))"
proof (induction ts arbitrary: s)
  case Nil
  show ?case by (simp split: prod.splits)
next
  case (Cons u us)
  obtain out s' where e: "exec u s = (out, s')"
    by (cases "exec u s")
  from run_Cons [OF e, of "us @ [t]"] run_Cons [OF e, of us] Cons.IH [of s'] show ?case
    by simp
qed

lemma set_post_fields [simp]:
  "collectionCount (set_post cid enc s) = collectionCount s"
  "nextTokenId (set_post cid enc s) = nextTokenId s"
  "tokenToCollection (set_post cid enc s) = tokenToCollection s"
  "owners (set_post cid enc s) = owners s"
  "balances (set_post cid enc s) = balances s"
  "exists (collections (set_post cid enc s) i) = exists (collections s i)"
  "maxSupply (collections (set_post cid enc s) i) = maxSupply (collections s i)"
  "minted (collections (set_post cid enc s) i) = minted (collections s i)"
  "baseTokenId (collections (set_post cid enc s) i) = baseTokenId (collections s i)"
  "creator (collections (set_post cid enc s) i) = creator (collections s i)"
  "name (collections (set_post cid enc s) i) = name (collections s i)"
  by (simp_all add: set_post_def)

lemma set_post_handle [simp]:
  "hiddenOwner (collections (set_post cid enc s) i) =
     (if i = cid then enc else hiddenOwner (collections s i))"
  by (simp add: set_post_def)

lemma mint_post_fields [simp]:
  "collectionCount (mint_post sender cid s) = collectionCount s"
  "nextTokenId (mint_post sender cid s) = nextTokenId s"
  "exists (collections (mint_post sender cid s) i) = exists (collections s i)"
  "maxSupply (collections (mint_post sender cid s) i) = maxSupply (collections s i)"
  "baseTokenId (collections (mint_post sender cid s) i) = baseTokenId (collections s i)"
  "creator (collections (mint_post sender cid s) i) = creator (collections s i)"
  "name (collections (mint_post sender cid s) i) = name (collections s i)"
  "hiddenOwner (collections (mint_post sender cid s) i) = hiddenOwner (collections s i)"
  "minted (collections (mint_post sender cid s) i) =
     (if i = cid then minted (collections s cid) + 1 else minted (collections s i))"
  "balances (mint_post sender cid s) a =
     (if a = sender then balances s sender + 1 else balances s a)"
  "owners (mint_post sender cid s) t =
     (if t = baseTokenId (collections s cid) + minted (collections s cid) then sender
      else owners s t)"
  "tokenToCollection (mint_post sender cid s) t =
     (if t = baseTokenId (collections s cid) + minted (collections s cid) then cid
      else tokenToCollection s t)"
  by (simp_all add: mint_post_def Let_def)

lemma create_post_fields [simp]:
  "collectionCount (create_post sender nm m enc s) = collectionCount s + 1"
  "nextTokenId (create_post sender nm m enc s) = nextTokenId s + m"
  "tokenToCollection (create_post sender nm m enc s) = tokenToCollection s"
  "owners (create_post sender nm m enc s) = owners s"
  "balances (create_post sender nm m enc s) = balances s"
  "collections (create_post sender nm m enc s) (collectionCount s + 1) =
     \<lparr>name = nm, maxSupply = m, minted = 0, creator = sender,
      baseTokenId = nextTokenId s, hiddenOwner = enc, exists = True\<rparr>"
  "i \<noteq> collectionCount s + 1 \<Longrightarrow>
     collections (create_post sender nm m enc s) i = collections s i"
  by (simp_all add: create_post_def)

lemma create_post_collection_cases:
  obtains (new) "i = collectionCount s + 1"
      "collections (create_post sender nm m enc s) i =
         \<lparr>name = nm, maxSupply = m, minted = 0, creator = sender,
          baseTokenId = nextTokenId s, hiddenOwner = enc, exists = True\<rparr>"
  | (old) "i \<noteq> collectionCount s + 1"
      "collections (create_post sender nm m enc s) i = collections s i"
  by (cases "i = collectionCount s + 1") simp_all

lemma create_post_existing:
  "{i. exists (collections (create_post sender nm m enc s) i)} =
     insert (collectionCount s + 1) {i. exists (collections s i)}"
  by (auto simp: create_post_def)


subsection \<open>Sums over collections and principals\<close>

lemma sum_one_changed:
  fixes g g' :: "'a \<Rightarrow> nat"
  assumes "finite A" and "x \<in> A" and "\<And>i. i \<in> A \<Longrightarrow> i \<noteq> x \<Longrightarrow> g' i = g i"
    and "g' x = g x + k"
  shows "sum g' A = sum g A + k"
proof -
  have "sum g' A = g' x + sum g' (A - {x})"
    using assms(1,2) by (rule sum.remove)
  also have "sum g' (A - {x}) = sum g (A - {x})"
    using assms(3) by (intro sum.cong) auto
  also have "g' x + sum g (A - {x}) = (g x + sum g (A - {x})) + k"
    using assms(4) by simp
  also have "g x + sum g (A - {x}) = sum g A"
    using assms(1,2) by (rule sum.remove [symmetric])
  finally show ?thesis .
qed

lemma sum_one_added:
  fixes g g' :: "'a \<Rightarrow> nat"
  assumes "finite A" and "x \<notin> A" and "\<And>i. i \<in> A \<Longrightarrow> g' i = g i"
  shows "sum g' (insert x A) = g' x + sum g A"
proof -
  have "sum g' (insert x A) = g' x + sum g' A"
    using assms(1,2) by (rule sum.insert)
  also have "sum g' A = sum g A"
    using assms(3) by (intro sum.cong) auto
  finally show ?thesis .
qed

lemma balance_le_total: "unat (balances s p) \<le> total_balance s"
  unfolding total_balance_def
  by (rule member_le_sum) simp_all

lemma set_post_total_minted: "total_minted (set_post cid enc s) = total_minted s"
  by (simp add: total_minted_def)

lemma mint_post_total_minted:
  assumes "exists (collections s cid)"
    and "unat (minted (collections s cid)) < unat (maxSupply (collections s cid))"
  shows "total_minted (mint_post sender cid s) = total_minted s + 1"
proof -
  let ?E = "{i. exists (collections s i)}"
  have "(\<Sum>i\<in>?E. unat (minted (collections (mint_post sender cid s) i))) =
      (\<Sum>i\<in>?E. unat (minted (collections s i))) + 1"
    by (rule sum_one_changed [where x = cid])
      (use assms in \<open>simp_all add: unat_succ\<close>)
  then show ?thesis
    by (simp add: total_minted_def)
qed

lemma mint_post_total_balance:
  assumes "unat (balances s sender) + 1 < 2 ^ 256"
  shows "total_balance (mint_post sender cid s) = total_balance s + 1"
  unfolding total_balance_def
  by (rule sum_one_changed [where x = sender])
    (use assms unat_checked_sum [of "balances s sender" 1] in simp_all)

lemma mint_post_total_supply: "total_supply (mint_post sender cid s) = total_supply s"
  by (simp add: total_supply_def)

lemma initial_total_minted: "total_minted initial = 0"
  by (simp add: total_minted_def initial_def zero_collection_def)


subsection \<open>The invariant holds initially and after setHiddenOwner\<close>

lemma initial_inv: "ledger_inv initial"
  by (simp add: ledger_inv_def inv_ids_def inv_supply_def inv_disjoint_def inv_next_def
      inv_balance_def inv_tokens_def initial_def zero_collection_def
      total_supply_def total_minted_def total_balance_def)

lemma initial_inv_owners: "inv_owners initial"
  by (simp add: inv_owners_def initial_def)

lemma inv_supplyD:
  assumes "inv_supply s" and "exists (collections s i)"
  shows "maxSupply (collections s i) \<noteq> 0"
    and "unat (minted (collections s i)) \<le> unat (maxSupply (collections s i))"
    and "baseTokenId (collections s i) \<noteq> 0"
    and "unat (baseTokenId (collections s i)) + unat (maxSupply (collections s i))
      \<le> unat (nextTokenId s)"
  using assms by (simp_all add: inv_supply_def word_le_nat_alt)

lemma set_post_inv: "ledger_inv (set_post cid enc s) = ledger_inv s"
proof -
  have "inv_ids (set_post cid enc s) = inv_ids s"
    by (simp add: inv_ids_def)
  moreover have "inv_supply (set_post cid enc s) = inv_supply s"
    by (simp add: inv_supply_def)
  moreover have "inv_disjoint (set_post cid enc s) = inv_disjoint s"
    by (simp add: inv_disjoint_def)
  moreover have "inv_next (set_post cid enc s) = inv_next s"
    by (simp add: inv_next_def total_supply_def)
  moreover have "inv_balance (set_post cid enc s) = inv_balance s"
    by (simp add: inv_balance_def total_balance_def total_minted_def)
  moreover have "inv_tokens (set_post cid enc s) = inv_tokens s"
    by (simp add: inv_tokens_def minted_range_def)
  ultimately show ?thesis
    by (simp add: ledger_inv_def)
qed

lemma set_post_inv_owners: "inv_owners (set_post cid enc s) = inv_owners s"
  by (simp add: inv_owners_def)


subsection \<open>The invariant after mint\<close>

lemma mint_post_inv_supply:
  assumes "inv_supply s"
    and "unat (minted (collections s cid)) < unat (maxSupply (collections s cid))"
  shows "inv_supply (mint_post sender cid s)"
  using assms by (auto simp: inv_supply_def word_le_nat_alt unat_succ)

lemma unat_token:
  assumes "inv_supply s" and "exists (collections s cid)"
  shows "unat (baseTokenId (collections s cid) + minted (collections s cid)) =
    unat (baseTokenId (collections s cid)) + unat (minted (collections s cid))"
proof -
  let ?c = "collections s cid"
  have "unat (minted ?c) \<le> unat (maxSupply ?c)"
    and "unat (baseTokenId ?c) + unat (maxSupply ?c) \<le> unat (nextTokenId s)"
    using assms by (simp_all add: inv_supply_def word_le_nat_alt)
  then have "unat (baseTokenId ?c) + unat (minted ?c) < 2 ^ 256"
    using unat_uint256_bound [of "nextTokenId s"] by linarith
  then show ?thesis
    by (rule unat_checked_sum)
qed

lemma mint_post_inv_tokens:
  assumes sup: "inv_supply s" and dis: "inv_disjoint s" and tok: "inv_tokens s"
    and ex: "exists (collections s cid)"
    and lt: "unat (minted (collections s cid)) < unat (maxSupply (collections s cid))"
  shows "inv_tokens (mint_post sender cid s)"
proof -
  let ?c = "collections s cid"
  let ?tid = "baseTokenId ?c + minted ?c"
  have tid: "unat ?tid = unat (baseTokenId ?c) + unat (minted ?c)"
    using sup ex by (rule unat_token)
  have m1: "unat (minted ?c + 1) = unat (minted ?c) + 1"
    using lt by (rule unat_succ)
  have fresh: "t \<noteq> ?tid" if "exists (collections s c)" "t \<in> minted_range (collections s c)" for c t
  proof (cases "c = cid")
    case True
    with that tid show ?thesis
      by (auto simp: minted_range_def)
  next
    case False
    from sup that(1) have "unat (minted (collections s c)) \<le> unat (maxSupply (collections s c))"
      by (simp add: inv_supply_def word_le_nat_alt)
    moreover from dis that(1) ex False
    have "unat (baseTokenId (collections s c)) + unat (maxSupply (collections s c))
          \<le> unat (baseTokenId ?c) \<or>
        unat (baseTokenId ?c) + unat (maxSupply ?c) \<le> unat (baseTokenId (collections s c))"
      unfolding inv_disjoint_def by blast
    ultimately show ?thesis
      using that(2) tid lt by (auto simp: minted_range_def)
  qed
  have mono: "minted_range (collections s c) \<subseteq> minted_range (collections (mint_post sender cid s) c)" for c
    using m1 by (auto simp: minted_range_def)
  have grow: "t \<in> minted_range (collections s c) \<or> (c = cid \<and> t = ?tid)"
    if r: "t \<in> minted_range (collections (mint_post sender cid s) c)" for c t
  proof (cases "c = cid")
    case True
    show ?thesis
    proof (cases "unat t = unat ?tid")
      case True
      then have "t = ?tid"
        by (simp only: word_unat_eq_iff)
      with \<open>c = cid\<close> show ?thesis by simp
    next
      case False
      with r \<open>c = cid\<close> m1 tid show ?thesis
        by (simp add: minted_range_def)
    qed
  next
    case False
    with r show ?thesis
      by (simp add: minted_range_def)
  qed
  have here: "?tid \<in> minted_range (collections (mint_post sender cid s) cid)"
    using m1 tid by (simp add: minted_range_def)
  show ?thesis
    unfolding inv_tokens_def
  proof (intro conjI allI impI)
    fix t
    assume nz: "tokenToCollection (mint_post sender cid s) t \<noteq> 0"
    show "exists (collections (mint_post sender cid s) (tokenToCollection (mint_post sender cid s) t))"
      using nz tok ex by (auto simp: inv_tokens_def)
    show "t \<in> minted_range (collections (mint_post sender cid s)
        (tokenToCollection (mint_post sender cid s) t))"
    proof (cases "t = ?tid")
      case True
      then show ?thesis using here by simp
    next
      case False
      with nz tok have "t \<in> minted_range (collections s (tokenToCollection s t))"
        by (simp add: inv_tokens_def)
      with mono False show ?thesis
        by auto
    qed
  next
    fix c t
    assume a: "exists (collections (mint_post sender cid s) c) \<and>
      t \<in> minted_range (collections (mint_post sender cid s) c)"
    then have ex_c: "exists (collections s c)" by simp
    from a grow have "t \<in> minted_range (collections s c) \<or> (c = cid \<and> t = ?tid)"
      by blast
    then show "tokenToCollection (mint_post sender cid s) t = c"
    proof
      assume r: "t \<in> minted_range (collections s c)"
      with ex_c fresh have "t \<noteq> ?tid" by blast
      moreover from tok ex_c r have "tokenToCollection s t = c"
        by (simp add: inv_tokens_def)
      ultimately show ?thesis by simp
    next
      assume "c = cid \<and> t = ?tid"
      then show ?thesis by simp
    qed
  qed
qed

lemma mint_post_inv_owners:
  assumes "inv_ids s" and "inv_owners s" and "exists (collections s cid)" and "sender \<noteq> 0"
  shows "inv_owners (mint_post sender cid s)"
proof -
  from assms(1,3) have "cid \<noteq> 0"
    by (simp add: inv_ids_def)
  with assms(2,4) show ?thesis
    by (simp add: inv_owners_def)
qed

lemma mint_post_inv:
  assumes "ledger_inv s" and "exists (collections s cid)"
    and "unat (minted (collections s cid)) < unat (maxSupply (collections s cid))"
    and "unat (balances s sender) + 1 < 2 ^ 256"
  shows "ledger_inv (mint_post sender cid s)"
proof -
  have "inv_ids (mint_post sender cid s)"
    using assms(1) by (simp add: ledger_inv_def inv_ids_def)
  moreover have "inv_supply (mint_post sender cid s)"
    using assms(1,3) by (simp add: ledger_inv_def mint_post_inv_supply)
  moreover have "inv_disjoint (mint_post sender cid s)"
    using assms(1) by (simp add: ledger_inv_def inv_disjoint_def)
  moreover have "inv_next (mint_post sender cid s)"
    using assms(1) by (simp add: ledger_inv_def inv_next_def mint_post_total_supply)
  moreover have "inv_balance (mint_post sender cid s)"
    using assms
    by (simp add: ledger_inv_def inv_balance_def mint_post_total_minted mint_post_total_balance)
  moreover have "inv_tokens (mint_post sender cid s)"
    using assms(1,2,3) by (simp add: ledger_inv_def mint_post_inv_tokens)
  ultimately show ?thesis
    by (simp add: ledger_inv_def)
qed


subsection \<open>The invariant after createCollection\<close>

lemma new_id_fresh:
  assumes "inv_ids s" and "unat (collectionCount s) + 1 < 2 ^ 256"
  shows "\<not> exists (collections s (collectionCount s + 1))"
proof -
  have "unat (collectionCount s + 1) = unat (collectionCount s) + 1"
    using assms(2) unat_checked_sum [of "collectionCount s" 1] by simp
  then have "\<not> collectionCount s + 1 \<le> collectionCount s"
    by (simp add: word_le_nat_alt)
  with assms(1) show ?thesis
    by (simp add: inv_ids_def)
qed

lemma create_post_inv_ids:
  assumes "inv_ids s" and "unat (collectionCount s) + 1 < 2 ^ 256"
  shows "inv_ids (create_post sender nm m enc s)"
proof -
  let ?new = "collectionCount s + 1"
  have new: "unat ?new = unat (collectionCount s) + 1"
    using assms(2) unat_checked_sum [of "collectionCount s" 1] by simp
  have "exists (collections (create_post sender nm m enc s) i) \<longleftrightarrow> i \<noteq> 0 \<and> i \<le> ?new" for i
  proof (cases "i = ?new")
    case True
    with new have "unat i \<noteq> 0" by simp
    then have "i \<noteq> 0" by (simp add: unat_eq_0)
    with True show ?thesis by simp
  next
    case False
    then have "unat i \<noteq> unat ?new"
      by (simp only: word_unat_eq_iff not_False_eq_True)
    with new have "i \<le> ?new \<longleftrightarrow> i \<le> collectionCount s"
      by (auto simp: word_le_nat_alt)
    with False assms(1) show ?thesis
      by (simp add: inv_ids_def)
  qed
  then show ?thesis
    by (simp add: inv_ids_def)
qed

lemma create_post_total_supply:
  assumes "inv_ids s" and "unat (collectionCount s) + 1 < 2 ^ 256"
  shows "total_supply (create_post sender nm m enc s) = unat m + total_supply s"
proof -
  let ?new = "collectionCount s + 1"
  let ?E = "{i. exists (collections s i)}"
  have fresh: "?new \<notin> ?E"
    using new_id_fresh [OF assms] by simp
  have "(\<Sum>i\<in>insert ?new ?E. unat (maxSupply (collections (create_post sender nm m enc s) i))) =
      unat (maxSupply (collections (create_post sender nm m enc s) ?new)) +
      (\<Sum>i\<in>?E. unat (maxSupply (collections s i)))"
  proof (rule sum_one_added)
    show "finite ?E" by simp
    show "?new \<notin> ?E" by (rule fresh)
    fix i assume "i \<in> ?E"
    with fresh have "i \<noteq> ?new" by auto
    then show "unat (maxSupply (collections (create_post sender nm m enc s) i)) =
        unat (maxSupply (collections s i))"
      by simp
  qed
  then show ?thesis
    by (simp add: total_supply_def create_post_existing)
qed

lemma create_post_total_minted:
  assumes "inv_ids s" and "unat (collectionCount s) + 1 < 2 ^ 256"
  shows "total_minted (create_post sender nm m enc s) = total_minted s"
proof -
  let ?new = "collectionCount s + 1"
  let ?E = "{i. exists (collections s i)}"
  have fresh: "?new \<notin> ?E"
    using new_id_fresh [OF assms] by simp
  have "(\<Sum>i\<in>insert ?new ?E. unat (minted (collections (create_post sender nm m enc s) i))) =
      unat (minted (collections (create_post sender nm m enc s) ?new)) +
      (\<Sum>i\<in>?E. unat (minted (collections s i)))"
  proof (rule sum_one_added)
    show "finite ?E" by simp
    show "?new \<notin> ?E" by (rule fresh)
    fix i assume "i \<in> ?E"
    with fresh have "i \<noteq> ?new" by auto
    then show "unat (minted (collections (create_post sender nm m enc s) i)) =
        unat (minted (collections s i))"
      by simp
  qed
  then show ?thesis
    by (simp add: total_minted_def create_post_existing)
qed

lemma create_post_inv_supply:
  assumes sup: "inv_supply s" and nxt: "inv_next s" and m: "m \<noteq> 0"
    and fit: "unat (nextTokenId s) + unat m < 2 ^ 256"
  shows "inv_supply (create_post sender nm m enc s)"
proof -
  have n': "unat (nextTokenId s + m) = unat (nextTokenId s) + unat m"
    using fit by (rule unat_checked_sum)
  from nxt have "unat (nextTokenId s) \<noteq> 0"
    by (simp add: inv_next_def)
  then have base: "nextTokenId s \<noteq> 0"
    by (simp add: unat_eq_0)
  show ?thesis
    unfolding inv_supply_def
  proof (intro allI impI)
    fix i
    assume ex: "exists (collections (create_post sender nm m enc s) i)"
    let ?c = "collections (create_post sender nm m enc s) i"
    show "maxSupply ?c \<noteq> 0 \<and> minted ?c \<le> maxSupply ?c \<and> baseTokenId ?c \<noteq> 0 \<and>
        unat (baseTokenId ?c) + unat (maxSupply ?c)
          \<le> unat (nextTokenId (create_post sender nm m enc s))"
    proof (cases rule: create_post_collection_cases [where i = i and s = s and sender = sender and nm = nm and m = m and enc = enc])
      case new
      with m base n' show ?thesis by simp
    next
      case old
      with ex have "exists (collections s i)" by simp
      from inv_supplyD [OF sup this] old n' show ?thesis
        by (simp add: word_le_nat_alt)
    qed
  qed
qed

lemma create_post_inv_disjoint:
  assumes sup: "inv_supply s" and dis: "inv_disjoint s"
  shows "inv_disjoint (create_post sender nm m enc s)"
  unfolding inv_disjoint_def
proof (intro allI impI)
  fix i j
  let ?s' = "create_post sender nm m enc s"
  assume a: "exists (collections ?s' i) \<and> exists (collections ?s' j) \<and> i \<noteq> j"
  show "unat (baseTokenId (collections ?s' i)) + unat (maxSupply (collections ?s' i))
        \<le> unat (baseTokenId (collections ?s' j)) \<or>
      unat (baseTokenId (collections ?s' j)) + unat (maxSupply (collections ?s' j))
        \<le> unat (baseTokenId (collections ?s' i))"
  proof (cases rule: create_post_collection_cases [where i = i and s = s and sender = sender and nm = nm and m = m and enc = enc])
    case new
    with a have j: "j \<noteq> collectionCount s + 1" by auto
    with a have "exists (collections s j)" by simp
    from inv_supplyD(4) [OF sup this] new j show ?thesis
      by simp
  next
    case old
    show ?thesis
    proof (cases rule: create_post_collection_cases [where i = j and s = s and sender = sender and nm = nm and m = m and enc = enc])
      case new
      from a old have "exists (collections s i)" by simp
      from inv_supplyD(4) [OF sup this] new old show ?thesis
        by simp
    next
      case old': old
      with a old dis show ?thesis
        unfolding inv_disjoint_def by simp
    qed
  qed
qed

lemma create_post_inv_tokens:
  assumes ids: "inv_ids s" and tok: "inv_tokens s"
    and fit: "unat (collectionCount s) + 1 < 2 ^ 256"
  shows "inv_tokens (create_post sender nm m enc s)"
proof -
  let ?s' = "create_post sender nm m enc s"
  have fresh: "\<not> exists (collections s (collectionCount s + 1))"
    using ids fit by (rule new_id_fresh)
  have same: "exists (collections s c) \<Longrightarrow> collections ?s' c = collections s c" for c
    using fresh by (cases rule: create_post_collection_cases [where i = c and s = s and sender = sender and nm = nm and m = m and enc = enc]) auto
  have older: "exists (collections ?s' c) \<Longrightarrow> t \<in> minted_range (collections ?s' c) \<Longrightarrow>
      exists (collections s c) \<and> t \<in> minted_range (collections s c)" for c t
    by (cases rule: create_post_collection_cases [where i = c and s = s and sender = sender and nm = nm and m = m and enc = enc])
      (auto simp: minted_range_def)
  show ?thesis
    unfolding inv_tokens_def
  proof (intro conjI allI impI)
    fix t
    assume "tokenToCollection ?s' t \<noteq> 0"
    with tok have *: "exists (collections s (tokenToCollection s t))"
      "t \<in> minted_range (collections s (tokenToCollection s t))"
      by (simp_all add: inv_tokens_def)
    from * same show "exists (collections ?s' (tokenToCollection ?s' t))"
      by simp
    from * same show "t \<in> minted_range (collections ?s' (tokenToCollection ?s' t))"
      by simp
  next
    fix c t
    assume "exists (collections ?s' c) \<and> t \<in> minted_range (collections ?s' c)"
    with older have "exists (collections s c) \<and> t \<in> minted_range (collections s c)"
      by blast
    with tok show "tokenToCollection ?s' t = c"
      by (simp add: inv_tokens_def)
  qed
qed

lemma create_post_inv:
  assumes "ledger_inv s" and "m \<noteq> 0" and "unat (collectionCount s) + 1 < 2 ^ 256"
    and "unat (nextTokenId s) + unat m < 2 ^ 256"
  shows "ledger_inv (create_post sender nm m enc s)"
proof -
  let ?s' = "create_post sender nm m enc s"
  have n': "unat (nextTokenId s + m) = unat (nextTokenId s) + unat m"
    using assms(4) by (rule unat_checked_sum)
  have "inv_ids ?s'"
    using assms(1,3) by (simp add: ledger_inv_def create_post_inv_ids)
  moreover have "inv_supply ?s'"
    using assms(1,2,4) by (simp add: ledger_inv_def create_post_inv_supply)
  moreover have "inv_disjoint ?s'"
    using assms(1) by (simp add: ledger_inv_def create_post_inv_disjoint)
  moreover have "inv_next ?s'"
    using assms(1,3) n' by (simp add: ledger_inv_def inv_next_def create_post_total_supply)
  moreover have "inv_balance ?s'"
    using assms(1,3)
    by (simp add: ledger_inv_def inv_balance_def create_post_total_minted total_balance_def)
  moreover have "inv_tokens ?s'"
    using assms(1,3) by (simp add: ledger_inv_def create_post_inv_tokens)
  ultimately show ?thesis
    by (simp add: ledger_inv_def)
qed


subsection \<open>Reachable states\<close>

lemma exec_inv:
  assumes "ledger_inv s"
  shows "ledger_inv (snd (exec t s))"
proof -
  obtain out s' where e: "exec t s = (out, s')"
    by (cases "exec t s")
  then have "ledger_inv s'"
  proof (cases rule: exec_cases)
    case (reverted e)
    with assms show ?thesis by simp
  next
    case (created nm m enc)
    with assms show ?thesis by (simp add: create_post_inv)
  next
    case (updated cid enc)
    with assms show ?thesis by (simp add: set_post_inv)
  next
    case (minted cid)
    with assms show ?thesis by (simp add: mint_post_inv)
  qed
  with e show ?thesis by simp
qed

lemma exec_inv_owners:
  assumes "ledger_inv s" and "inv_owners s" and "tx_sender t \<noteq> 0"
  shows "inv_owners (snd (exec t s))"
proof -
  obtain out s' where e: "exec t s = (out, s')"
    by (cases "exec t s")
  then have "inv_owners s'"
  proof (cases rule: exec_cases)
    case (reverted e)
    with assms show ?thesis by simp
  next
    case (created nm m enc)
    with assms show ?thesis by (simp add: inv_owners_def)
  next
    case (updated cid enc)
    with assms show ?thesis by (simp add: set_post_inv_owners)
  next
    case (minted cid)
    with assms show ?thesis by (simp add: ledger_inv_def mint_post_inv_owners)
  qed
  with e show ?thesis by simp
qed

lemma reachable_inv: "reachable s \<Longrightarrow> ledger_inv s"
  by (induction rule: reachable.induct) (simp_all add: initial_inv exec_inv)

lemma reachable_run: "reachable s \<Longrightarrow> reachable (snd (run s ts))"
proof (induction ts arbitrary: s)
  case Nil
  then show ?case by simp
next
  case (Cons t ts)
  obtain out s' where e: "exec t s = (out, s')"
    by (cases "exec t s")
  from Cons.prems have "reachable (snd (exec t s))"
    by (rule reachable_exec)
  with e have "reachable s'" by simp
  then have "reachable (snd (run s' ts))"
    by (rule Cons.IH)
  with run_Cons [OF e, of ts] show ?case
    by simp
qed

lemma reachable_iff_run: "reachable s \<longleftrightarrow> (\<exists>ts. s = snd (run initial ts))"
proof
  assume "reachable s"
  then show "\<exists>ts. s = snd (run initial ts)"
  proof (induction rule: reachable.induct)
    case reachable_initial
    have "initial = snd (run initial [])"
      by simp
    then show ?case by blast
  next
    case (reachable_exec s t)
    then obtain ts where "s = snd (run initial ts)"
      by blast
    then have "snd (exec t s) = snd (run initial (ts @ [t]))"
      by (simp add: run_snoc)
    then show ?case by blast
  qed
next
  assume "\<exists>ts. s = snd (run initial ts)"
  then show "reachable s"
    using reachable_run [OF reachable_initial] by blast
qed

lemma run_inv_owners:
  "ledger_inv s \<Longrightarrow> inv_owners s \<Longrightarrow> \<forall>t\<in>set ts. tx_sender t \<noteq> 0 \<Longrightarrow>
     inv_owners (snd (run s ts))"
proof (induction ts arbitrary: s)
  case Nil
  then show ?case by simp
next
  case (Cons t ts)
  obtain out s' where e: "exec t s = (out, s')"
    by (cases "exec t s")
  from Cons.prems(3) have t: "tx_sender t \<noteq> 0" and ts: "\<forall>u\<in>set ts. tx_sender u \<noteq> 0"
    by simp_all
  from exec_inv [OF Cons.prems(1), of t] e have "ledger_inv s'"
    by simp
  moreover from exec_inv_owners [OF Cons.prems(1,2) t] e have "inv_owners s'"
    by simp
  ultimately have "inv_owners (snd (run s' ts))"
    using ts by (rule Cons.IH)
  with run_Cons [OF e, of ts] show ?case
    by simp
qed


subsection \<open>Minting in a state that satisfies the invariant\<close>

lemma minted_lt_supply:
  assumes "inv_supply s" and "exists (collections s cid)"
    and "unat (minted (collections s cid)) < unat (maxSupply (collections s cid))"
  shows "total_minted s < total_supply s"
  unfolding total_minted_def total_supply_def
proof (rule sum_strict_mono_ex1)
  show "finite {i. exists (collections s i)}" by simp
  show "\<forall>i\<in>{i. exists (collections s i)}.
      unat (minted (collections s i)) \<le> unat (maxSupply (collections s i))"
    using assms(1) by (simp add: inv_supplyD)
  show "\<exists>i\<in>{i. exists (collections s i)}.
      unat (minted (collections s i)) < unat (maxSupply (collections s i))"
    using assms(2,3) by auto
qed

lemma mint_succeeds:
  assumes inv: "ledger_inv s" and ex: "exists (collections s cid)"
    and lt: "unat (minted (collections s cid)) < unat (maxSupply (collections s cid))"
  shows "mint sender cid s =
    (Inr (baseTokenId (collections s cid) + minted (collections s cid)), mint_post sender cid s)"
proof -
  let ?c = "collections s cid"
  from inv have sup: "inv_supply s" and nxt: "inv_next s" and bal: "inv_balance s"
    by (simp_all add: ledger_inv_def)
  have "unat (baseTokenId ?c) + unat (maxSupply ?c) \<le> unat (nextTokenId s)"
    using sup ex by (rule inv_supplyD)
  with lt have tok: "unat (baseTokenId ?c) + unat (minted ?c) < 2 ^ 256"
    using unat_uint256_bound [of "nextTokenId s"] by linarith
  have "unat (balances s sender) \<le> total_balance s"
    by (rule balance_le_total)
  also have "total_balance s = total_minted s"
    using bal by (simp add: inv_balance_def)
  also have "total_minted s < total_supply s"
    using sup ex lt by (rule minted_lt_supply)
  finally have "unat (balances s sender) + 1 < total_supply s + 1"
    by simp
  also have "total_supply s + 1 = unat (nextTokenId s)"
    using nxt by (simp add: inv_next_def)
  finally have "unat (balances s sender) + 1 < 2 ^ 256"
    using unat_uint256_bound [of "nextTokenId s"] by linarith
  with ex lt tok show ?thesis
    by (simp add: mint_Inr_iff)
qed

lemma exec_mint_succeeds:
  assumes "ledger_inv s" and "exists (collections s cid)"
    and "unat (minted (collections s cid)) < unat (maxSupply (collections s cid))"
    and "tx_call t = Mint cid"
  shows "exec t s =
    (MintedToken (baseTokenId (collections s cid) + minted (collections s cid)),
     mint_post (tx_sender t) cid s)"
proof (cases t)
  case (Tx sender fhe c)
  with assms(4) have "c = Mint cid" by simp
  with Tx mint_succeeds [OF assms(1,2,3), of sender] show ?thesis
    by (simp add: transact_def)
qed

lemma exec_minted_mono:
  assumes inv: "ledger_inv s" and ex: "exists (collections s cid)"
  shows "unat (minted (collections s cid)) \<le> unat (minted (collections (snd (exec t s)) cid))"
proof -
  obtain out s' where e: "exec t s = (out, s')"
    by (cases "exec t s")
  then have "unat (minted (collections s cid)) \<le> unat (minted (collections s' cid))"
  proof (cases rule: exec_cases)
    case (reverted e)
    then show ?thesis by simp
  next
    case (created nm m enc)
    from inv have "inv_ids s" by (simp add: ledger_inv_def)
    then have "\<not> exists (collections s (collectionCount s + 1))"
      using created(4) by (rule new_id_fresh)
    with ex have "cid \<noteq> collectionCount s + 1" by auto
    with created show ?thesis by simp
  next
    case (updated c enc)
    then show ?thesis by simp
  next
    case (minted c)
    then show ?thesis
      by (simp add: unat_succ)
  qed
  with e show ?thesis by simp
qed

lemma upt_shift: "map f [0..<Suc n] = f 0 # map (\<lambda>k. f (Suc k)) [0..<n]"
proof -
  have "[0..<Suc n] = 0 # [Suc 0..<Suc n]"
    by (rule upt_conv_Cons) simp
  also have "[Suc 0..<Suc n] = map Suc [0..<n]"
    by (simp only: map_Suc_upt)
  finally have "map f [0..<Suc n] = map f (0 # map Suc [0..<n])"
    by (rule arg_cong)
  then show ?thesis
    by (simp only: list.map map_map comp_def)
qed

lemma mint_run:
  assumes "ledger_inv s" and "exists (collections s cid)"
    and "\<forall>t\<in>set ts. tx_call t = Mint cid"
    and "unat (minted (collections s cid)) + length ts \<le> unat (maxSupply (collections s cid))"
  shows "fst (run s ts) =
    map (\<lambda>k. MintedToken (baseTokenId (collections s cid) + minted (collections s cid) + of_nat k))
      [0..<length ts]"
  using assms
proof (induction ts arbitrary: s)
  case Nil
  then show ?case by simp
next
  case (Cons t ts)
  let ?c = "collections s cid"
  let ?s' = "mint_post (tx_sender t) cid s"
  from Cons.prems(4) have lt: "unat (minted ?c) < unat (maxSupply ?c)"
    by simp
  from Cons.prems(3) have call: "tx_call t = Mint cid"
    by simp
  have step: "exec t s = (MintedToken (baseTokenId ?c + minted ?c), ?s')"
    using Cons.prems(1,2) lt call by (rule exec_mint_succeeds)
  have m': "unat (minted ?c + 1) = unat (minted ?c) + 1"
    using lt by (rule unat_succ)
  have sender_fits: "unat (balances s (tx_sender t)) + 1 < 2 ^ 256"
    using step by (cases rule: exec_cases) auto
  have inv': "ledger_inv ?s'"
    using Cons.prems(1,2) lt sender_fits by (rule mint_post_inv)
  have "fst (run ?s' ts) =
      map (\<lambda>k. MintedToken (baseTokenId (collections ?s' cid) + minted (collections ?s' cid)
        + of_nat k)) [0..<length ts]"
  proof (rule Cons.IH [OF inv'])
    show "exists (collections ?s' cid)"
      using Cons.prems(2) by simp
    show "\<forall>t\<in>set ts. tx_call t = Mint cid"
      using Cons.prems(3) by simp
    show "unat (minted (collections ?s' cid)) + length ts \<le> unat (maxSupply (collections ?s' cid))"
      using Cons.prems(4) m' by simp
  qed
  then have rest: "fst (run ?s' ts) =
      map (\<lambda>k. MintedToken (baseTokenId ?c + minted ?c + of_nat (Suc k))) [0..<length ts]"
    by (simp add: add.assoc)
  have "fst (run s (t # ts)) = MintedToken (baseTokenId ?c + minted ?c) # fst (run ?s' ts)"
    using step by (simp split: prod.splits)
  also have "\<dots> = map (\<lambda>k. MintedToken (baseTokenId ?c + minted ?c + of_nat k))
      [0..<Suc (length ts)]"
    unfolding rest upt_shift [of _ "length ts"] by simp
  finally show ?case by simp
qed


subsection \<open>Counters, balances and owners along a trace\<close>

lemma exec_collectionCount:
  assumes "exec t s = (out, s')"
  shows "(case out of
            Created i \<Rightarrow> unat i = Suc (unat (collectionCount s)) \<and> collectionCount s' = i
          | _ \<Rightarrow> collectionCount s' = collectionCount s)"
  using assms
proof (cases rule: exec_cases)
  case (created nm m enc)
  then show ?thesis
    using unat_checked_sum [of "collectionCount s" 1] by simp
qed simp_all

lemma run_created_ids:
  "map unat (created_ids (fst (run s ts))) =
     [Suc (unat (collectionCount s)) ..<
        Suc (unat (collectionCount s) + length (created_ids (fst (run s ts))))] \<and>
   unat (collectionCount (snd (run s ts))) =
     unat (collectionCount s) + length (created_ids (fst (run s ts)))"
proof (induction ts arbitrary: s)
  case Nil
  show ?case by simp
next
  case (Cons t ts)
  obtain out s' where e: "exec t s = (out, s')"
    by (cases "exec t s")
  note r = run_Cons [OF e, of ts]
  note ih = Cons.IH [of s']
  show ?case
  proof (cases out)
    case (Created i)
    with exec_collectionCount [OF e]
    have i: "unat i = Suc (unat (collectionCount s))" and c: "collectionCount s' = i"
      by simp_all
    let ?c = "unat (collectionCount s)"
    let ?n = "length (created_ids (fst (run s' ts)))"
    from ih c i have ids': "map unat (created_ids (fst (run s' ts))) =
        [Suc (Suc ?c) ..< Suc (Suc ?c + ?n)]"
      and cnt': "unat (collectionCount (snd (run s' ts))) = Suc ?c + ?n"
      by simp_all
    have "map unat (created_ids (fst (run s (t # ts)))) =
        Suc ?c # [Suc (Suc ?c) ..< Suc (Suc ?c + ?n)]"
      using r Created i ids' by simp
    also have "\<dots> = [Suc ?c ..< Suc (?c + Suc ?n)]"
      using upt_conv_Cons [of "Suc ?c" "Suc (?c + Suc ?n)"] by simp
    finally have "map unat (created_ids (fst (run s (t # ts)))) =
        [Suc ?c ..< Suc (?c + Suc ?n)]" .
    moreover have "length (created_ids (fst (run s (t # ts)))) = Suc ?n"
      using r Created by simp
    moreover have "unat (collectionCount (snd (run s (t # ts)))) = ?c + Suc ?n"
      using r cnt' by simp
    ultimately show ?thesis
      by (simp only:)
  next
    case (Reverted err)
    with exec_collectionCount [OF e] ih r show ?thesis by simp
  next
    case Updated
    with exec_collectionCount [OF e] ih r show ?thesis by simp
  next
    case (MintedToken tid)
    with exec_collectionCount [OF e] ih r show ?thesis by simp
  qed
qed

lemma exec_nextTokenId:
  assumes "exec t s = (out, s')" and "\<forall>i. out \<noteq> Created i"
  shows "nextTokenId s' = nextTokenId s"
  using assms by (cases rule: exec_cases) simp_all

lemma exec_balance:
  assumes "exec t s = (out, s')"
  shows "unat (balances s' p) =
    unat (balances s p) +
      (case out of MintedToken _ \<Rightarrow> (if tx_sender t = p then 1 else 0) | _ \<Rightarrow> 0)"
  using assms
proof (cases rule: exec_cases)
  case (minted cid)
  then show ?thesis
    using unat_checked_sum [of "balances s (tx_sender t)" 1] by auto
qed simp_all

lemma run_balance:
  "unat (balances (snd (run s ts)) p) = unat (balances s p) + mints_by p ts (fst (run s ts))"
proof (induction ts arbitrary: s)
  case Nil
  show ?case by simp
next
  case (Cons t ts)
  obtain out s' where e: "exec t s = (out, s')"
    by (cases "exec t s")
  note r = run_Cons [OF e, of ts]
  from exec_balance [OF e, of p] Cons.IH [of s'] r show ?case
    by (cases out) simp_all
qed

lemma balance_sum_total:
  assumes "inv_owners s"
  shows "balance_sum s = total_balance s"
  unfolding balance_sum_def total_balance_def
proof (rule sum.cong)
  fix p
  from assms have "balances s 0 = 0"
    by (simp add: inv_owners_def)
  then show "(case balanceOf s p of Inl _ \<Rightarrow> 0 | Inr b \<Rightarrow> unat b) = unat (balances s p)"
    by (simp add: balanceOf_def)
qed simp

lemma exec_total_minted:
  assumes "ledger_inv s" and "exec t s = (out, s')"
  shows "total_minted s' =
    total_minted s + (case out of MintedToken _ \<Rightarrow> 1 | _ \<Rightarrow> 0)"
  using assms(2)
proof (cases rule: exec_cases)
  case (reverted e)
  then show ?thesis by simp
next
  case (created nm m enc)
  with assms(1) show ?thesis
    by (simp add: ledger_inv_def create_post_total_minted)
next
  case (updated cid enc)
  then show ?thesis by (simp add: set_post_total_minted)
next
  case (minted cid)
  then show ?thesis by (simp add: mint_post_total_minted)
qed

lemma run_total_minted:
  "ledger_inv s \<Longrightarrow>
     total_minted (snd (run s ts)) = total_minted s + length (minted_tokens (fst (run s ts)))"
proof (induction ts arbitrary: s)
  case Nil
  show ?case by simp
next
  case (Cons t ts)
  obtain out s' where e: "exec t s = (out, s')"
    by (cases "exec t s")
  from exec_inv [OF Cons.prems, of t] e have "ledger_inv s'"
    by simp
  from Cons.IH [OF this] exec_total_minted [OF Cons.prems e] run_Cons [OF e, of ts]
  show ?case
    by (cases out) simp_all
qed

lemma exec_owners:
  assumes "exec t s = (out, s')" and "tx_sender t \<noteq> 0"
  shows "owners s' tok \<noteq> 0 \<longleftrightarrow>
    owners s tok \<noteq> 0 \<or> out = MintedToken tok"
  using assms by (cases rule: exec_cases) auto

lemma run_owners:
  "\<forall>t\<in>set ts. tx_sender t \<noteq> 0 \<Longrightarrow>
     owners (snd (run s ts)) tok \<noteq> 0 \<longleftrightarrow>
       owners s tok \<noteq> 0 \<or> tok \<in> set (minted_tokens (fst (run s ts)))"
proof (induction ts arbitrary: s)
  case Nil
  show ?case by simp
next
  case (Cons t ts)
  obtain out s' where e: "exec t s = (out, s')"
    by (cases "exec t s")
  from Cons.prems have t: "tx_sender t \<noteq> 0" and ts: "\<forall>u\<in>set ts. tx_sender u \<noteq> 0"
    by simp_all
  from Cons.IH [OF ts, of s'] exec_owners [OF e t, of tok] run_Cons [OF e, of ts]
  show ?case
    by (cases out) auto
qed


subsection \<open>Reserved ranges\<close>

lemma reserved_range_iff:
  assumes "inv_supply s" and "exists (collections s i)"
  shows "t \<in> reserved_range (collections s i) \<longleftrightarrow>
    unat (baseTokenId (collections s i)) \<le> unat t \<and>
    unat t < unat (baseTokenId (collections s i)) + unat (maxSupply (collections s i))"
proof -
  let ?b = "baseTokenId (collections s i)"
  let ?m = "maxSupply (collections s i)"
  from inv_supplyD [OF assms] have m: "?m \<noteq> 0"
    and fit: "unat ?b + unat ?m \<le> unat (nextTokenId s)"
    by simp_all
  from m have pos: "0 < unat ?m"
    by (simp add: unat_gt_0)
  from m have m1: "unat (?m - 1) = unat ?m - 1"
    by (rule unat_minus_one)
  have "unat ?b + unat (?m - 1) < 2 ^ 256"
    using fit m1 unat_uint256_bound [of "nextTokenId s"] by linarith
  then have "unat (?b + (?m - 1)) = unat ?b + unat (?m - 1)"
    by (rule unat_checked_sum)
  with m1 have last: "unat (?b + ?m - 1) = unat ?b + unat ?m - 1"
    using pos by (simp add: add_diff_eq)
  show ?thesis
    unfolding reserved_range_def
    using last pos by (auto simp: word_le_nat_alt)
qed

lemma minted_in_reserved:
  assumes "inv_supply s" and "exists (collections s c)" and "tok \<in> minted_range (collections s c)"
  shows "tok \<in> reserved_range (collections s c)"
proof -
  from inv_supplyD(2) [OF assms(1,2)] assms(3)
  have "unat (baseTokenId (collections s c)) \<le> unat tok \<and>
      unat tok < unat (baseTokenId (collections s c)) + unat (maxSupply (collections s c))"
    by (simp add: minted_range_def)
  then show ?thesis
    by (simp add: reserved_range_iff [OF assms(1,2)])
qed


subsection \<open>The loop of getAllCollections\<close>










subsection \<open>The scenario, evaluated\<close>

lemma genesis_eq:
  "genesis =
     \<lparr>collectionCount = 1, nextTokenId = 3,
      collections = (\<lambda>_. zero_collection)
        (1 := \<lparr>name = ''Genesis'', maxSupply = 2, minted = 0, creator = principal_A,
               baseTokenId = 1, hiddenOwner = 77, exists = True\<rparr>),
      tokenToCollection = (\<lambda>_. 0),
      owners = (\<lambda>_. 0),
      balances = (\<lambda>_. 0),
      events = [CollectionCreated 1 principal_A ''Genesis'' 2 77]\<rparr>"
  by (simp add: genesis_def genesis_tx_def transact_def createCollection_def fhe_ok_def
      checked_add_def initial_def Let_def)

lemma reachable_genesis: "reachable genesis"
  unfolding genesis_def
  by (rule reachable_exec [OF reachable_initial])

lemma two_collections_eq:
  "two_collections =
     \<lparr>collectionCount = 2, nextTokenId = 6,
      collections = (\<lambda>_. zero_collection)
        (1 := \<lparr>name = ''Genesis'', maxSupply = 2, minted = 0, creator = principal_A,
               baseTokenId = 1, hiddenOwner = 77, exists = True\<rparr>,
         2 := \<lparr>name = ''Second'', maxSupply = 3, minted = 0, creator = principal_B,
               baseTokenId = 3, hiddenOwner = 78, exists = True\<rparr>),
      tokenToCollection = (\<lambda>_. 0),
      owners = (\<lambda>_. 0),
      balances = (\<lambda>_. 0),
      events = [CollectionCreated 1 principal_A ''Genesis'' 2 77,
                CollectionCreated 2 principal_B ''Second'' 3 78]\<rparr>"
  by (simp add: two_collections_def second_tx_def genesis_eq transact_def createCollection_def
      fhe_ok_def checked_add_def Let_def)

lemma reachable_two_collections: "reachable two_collections"
  unfolding two_collections_def
  by (rule reachable_exec [OF reachable_genesis])

lemma scenario_outcomes:
  "fst (run initial scenario) =
     [Created 1, MintedToken 1, MintedToken 2, Reverted SupplyExhausted]"
  by (simp add: scenario_def genesis_tx_def transact_def createCollection_def mint_def
      fhe_ok_def checked_add_def initial_def Let_def principal_A_def principal_B_def
      principal_C_def word_le_nat_alt)

lemma scenario_balances:
  "balances (snd (run initial scenario)) principal_A = 0"
  "balances (snd (run initial scenario)) principal_B = 1"
  "balances (snd (run initial scenario)) principal_C = 1"
  by (simp_all add: scenario_def genesis_tx_def transact_def createCollection_def mint_def
      fhe_ok_def checked_add_def initial_def Let_def principal_A_def principal_B_def
      principal_C_def word_le_nat_alt)

lemma scenario_tokens:
  "owners (snd (run initial scenario)) 1 = principal_B"
  "owners (snd (run initial scenario)) 2 = principal_C"
  "owners (snd (run initial scenario)) 3 = 0"
  "tokenToCollection (snd (run initial scenario)) 1 = 1"
  "tokenToCollection (snd (run initial scenario)) 2 = 1"
  "tokenToCollection (snd (run initial scenario)) 3 = 0"
  by (simp_all add: scenario_def genesis_tx_def transact_def createCollection_def mint_def
      fhe_ok_def checked_add_def initial_def Let_def principal_A_def principal_B_def
      principal_C_def word_le_nat_alt)

section \<open>The claims\<close>

text \<open>
  Claim C1. In every reachable ledger state and for every existing collection,
  \<open>0 \<le> minted \<le> maxSupply\<close>; no transaction decreases \<open>minted\<close>; and a call of
  \<^verbatim>\<open>mint\<close> on the collection, by any sender, fails with \<open>SupplyExhausted\<close> exactly when
  \<open>minted = maxSupply\<close>, while before that it succeeds.
\<close>

theorem minted_bounded_by_supply:
  assumes "reachable s" and "exists (collections s cid)"
  shows "0 \<le> minted (collections s cid) \<and>
    minted (collections s cid) \<le> maxSupply (collections s cid) \<and>
    (\<forall>t. minted (collections s cid) \<le> minted (collections (snd (exec t s)) cid)) \<and>
    (\<forall>sender.
       (fst (transact (mint sender cid) s) = Inl SupplyExhausted \<longleftrightarrow>
          minted (collections s cid) = maxSupply (collections s cid)) \<and>
       (minted (collections s cid) \<noteq> maxSupply (collections s cid) \<longrightarrow>
          (\<exists>tokenId. fst (transact (mint sender cid) s) = Inr tokenId)))"
proof -
  let ?c = "collections s cid"
  from assms(1) have inv: "ledger_inv s"
    by (rule reachable_inv)
  then have sup: "inv_supply s"
    by (simp add: ledger_inv_def)
  have le: "minted ?c \<le> maxSupply ?c"
    using inv_supplyD(2) [OF sup assms(2)] by (simp add: word_le_nat_alt)
  have mono: "minted ?c \<le> minted (collections (snd (exec t s)) cid)" for t
    using exec_minted_mono [OF inv assms(2)] by (simp add: word_le_nat_alt)
  have exhausted: "fst (transact (mint sender cid) s) = Inl SupplyExhausted \<longleftrightarrow>
      minted ?c = maxSupply ?c" for sender
    using le assms(2) by (auto simp: fst_transact mint_exhausted)
  have before: "\<exists>tokenId. fst (transact (mint sender cid) s) = Inr tokenId"
    if "minted ?c \<noteq> maxSupply ?c" for sender
  proof -
    from that le have "unat (minted ?c) < unat (maxSupply ?c)"
      by (simp add: word_le_nat_alt word_unat_eq_iff)
    from mint_succeeds [OF inv assms(2) this] show ?thesis
      by (simp add: fst_transact)
  qed
  from le mono exhausted before show ?thesis
    by simp
qed

theorem minted_bounded_by_supply_witness:
  "minted (collections genesis 1) \<le> maxSupply (collections genesis 1) \<and>
   fst (transact (mint principal_B 1) genesis) \<noteq> Inl SupplyExhausted \<and>
   (\<exists>tokenId. fst (transact (mint principal_B 1) genesis) = Inr tokenId)"
proof -
  have ex: "exists (collections genesis 1)"
    by (simp add: genesis_eq)
  have ne: "minted (collections genesis 1) \<noteq> maxSupply (collections genesis 1)"
    by (simp add: genesis_eq)
  from minted_bounded_by_supply [OF reachable_genesis ex] ne show ?thesis
    by simp
qed

text \<open>
  Claim C2. In a reachable state, for an existing collection with \<open>minted < maxSupply\<close>,
  a call of \<^verbatim>\<open>mint\<close> by any sender succeeds, returns
  \<open>tokenId = baseTokenId + minted\<close> (the values before the call, the sum not wrapping),
  increments \<open>minted\<close> by exactly one, records the caller as owner of that token id,
  increments the caller's balance by one and records the collection as the token's
  back-reference. Hence, on a fresh collection, \<open>maxSupply\<close> calls of \<^verbatim>\<open>mint\<close> in a row
  all succeed and return \<open>baseTokenId, baseTokenId + 1, \<dots>, baseTokenId + maxSupply - 1\<close>
  in that order.
\<close>

theorem mint_assigns_next_token:
  assumes "reachable s" and "exists (collections s cid)"
    and "minted (collections s cid) < maxSupply (collections s cid)"
  shows "(\<exists>s'. transact (mint sender cid) s =
            (Inr (baseTokenId (collections s cid) + minted (collections s cid)), s') \<and>
          unat (baseTokenId (collections s cid) + minted (collections s cid)) =
            unat (baseTokenId (collections s cid)) + unat (minted (collections s cid)) \<and>
          minted (collections s' cid) = minted (collections s cid) + 1 \<and>
          unat (minted (collections s' cid)) = unat (minted (collections s cid)) + 1 \<and>
          owners s' (baseTokenId (collections s cid) + minted (collections s cid)) = sender \<and>
          balances s' sender = balances s sender + 1 \<and>
          unat (balances s' sender) = unat (balances s sender) + 1 \<and>
          tokenToCollection s' (baseTokenId (collections s cid) + minted (collections s cid)) = cid) \<and>
         (\<forall>ts. minted (collections s cid) = 0 \<and> (\<forall>t\<in>set ts. tx_call t = Mint cid) \<and>
            length ts = unat (maxSupply (collections s cid)) \<longrightarrow>
            fst (run s ts) =
              map (\<lambda>k. MintedToken (baseTokenId (collections s cid) + of_nat k))
                [0..<unat (maxSupply (collections s cid))])"
proof (intro conjI allI impI)
  let ?c = "collections s cid"
  let ?tid = "baseTokenId ?c + minted ?c"
  let ?s' = "mint_post sender cid s"
  from assms(1) have inv: "ledger_inv s"
    by (rule reachable_inv)
  then have sup: "inv_supply s"
    by (simp add: ledger_inv_def)
  from assms(3) have lt: "unat (minted ?c) < unat (maxSupply ?c)"
    by (simp add: word_less_nat_alt)
  have ok: "mint sender cid s = (Inr ?tid, ?s')"
    using inv assms(2) lt by (rule mint_succeeds)
  then have fits: "unat (balances s sender) + 1 < 2 ^ 256"
    by (simp add: mint_Inr_iff)
  have "transact (mint sender cid) s = (Inr ?tid, ?s')"
    using ok by (simp add: transact_Inr_iff)
  moreover have "unat ?tid = unat (baseTokenId ?c) + unat (minted ?c)"
    using sup assms(2) by (rule unat_token)
  moreover have "minted (collections ?s' cid) = minted ?c + 1"
    by simp
  moreover have "unat (minted (collections ?s' cid)) = unat (minted ?c) + 1"
    using lt by (simp add: unat_succ)
  moreover have "owners ?s' ?tid = sender"
    by simp
  moreover have "balances ?s' sender = balances s sender + 1"
    by simp
  moreover have "unat (balances ?s' sender) = unat (balances s sender) + 1"
    using unat_checked_sum [of "balances s sender" 1] fits by simp
  moreover have "tokenToCollection ?s' ?tid = cid"
    by simp
  ultimately show "\<exists>s'. transact (mint sender cid) s = (Inr ?tid, s') \<and>
      unat ?tid = unat (baseTokenId ?c) + unat (minted ?c) \<and>
      minted (collections s' cid) = minted ?c + 1 \<and>
      unat (minted (collections s' cid)) = unat (minted ?c) + 1 \<and>
      owners s' ?tid = sender \<and>
      balances s' sender = balances s sender + 1 \<and>
      unat (balances s' sender) = unat (balances s sender) + 1 \<and>
      tokenToCollection s' ?tid = cid"
    by blast
next
  fix ts
  let ?c = "collections s cid"
  assume a: "minted ?c = 0 \<and> (\<forall>t\<in>set ts. tx_call t = Mint cid) \<and>
    length ts = unat (maxSupply ?c)"
  from assms(1) have inv: "ledger_inv s"
    by (rule reachable_inv)
  have "fst (run s ts) =
      map (\<lambda>k. MintedToken (baseTokenId ?c + minted ?c + of_nat k)) [0..<length ts]"
    using inv assms(2) a by (intro mint_run) simp_all
  with a show "fst (run s ts) =
      map (\<lambda>k. MintedToken (baseTokenId ?c + of_nat k)) [0..<unat (maxSupply ?c)]"
    by simp
qed

theorem mint_assigns_next_token_witness:
  "(\<exists>s'. transact (mint principal_B 1) genesis = (Inr 1, s') \<and>
      minted (collections s' 1) = 1 \<and> owners s' 1 = principal_B \<and>
      balances s' principal_B = 1 \<and> tokenToCollection s' 1 = 1) \<and>
   fst (run genesis [Tx principal_B fhe_ok (Mint 1), Tx principal_C fhe_ok (Mint 1)]) =
     [MintedToken 1, MintedToken 2]"
proof -
  have ex: "exists (collections genesis 1)"
    by (simp add: genesis_eq)
  have lt: "minted (collections genesis 1) < maxSupply (collections genesis 1)"
    by (simp add: genesis_eq)
  have fresh: "minted (collections genesis 1) = 0 \<and>
      (\<forall>t\<in>set [Tx principal_B fhe_ok (Mint 1), Tx principal_C fhe_ok (Mint 1)].
         tx_call t = Mint 1) \<and>
      length [Tx principal_B fhe_ok (Mint 1), Tx principal_C fhe_ok (Mint 1)] =
        unat (maxSupply (collections genesis 1))"
    by (simp add: genesis_eq)
  have vals: "baseTokenId (collections genesis 1) = 1" "minted (collections genesis 1) = 0"
      "maxSupply (collections genesis 1) = 2" "balances genesis principal_B = 0"
    by (simp_all add: genesis_eq)
  have upt: "[0..<2] = [0, Suc 0]"
    by (simp add: upt_rec)
  note inst = mint_assigns_next_token [OF reachable_genesis ex lt, of principal_B]
  from inst [THEN conjunct1] have first: "\<exists>s'. transact (mint principal_B 1) genesis = (Inr 1, s') \<and>
      minted (collections s' 1) = 1 \<and> owners s' 1 = principal_B \<and>
      balances s' principal_B = 1 \<and> tokenToCollection s' 1 = 1"
    by (auto simp: vals)
  from inst [THEN conjunct2, rule_format, OF fresh]
  have "fst (run genesis [Tx principal_B fhe_ok (Mint 1), Tx principal_C fhe_ok (Mint 1)]) =
      [MintedToken 1, MintedToken 2]"
    by (simp add: vals upt)
  with first show ?thesis
    by simp
qed

text \<open>
  Claim C3. In every sequence of transactions on the deployed contract, the k-th
  successful call of \<^verbatim>\<open>createCollection\<close> returns the id k: the first returns 1, each
  later one returns one more than the one before. So the ids are never reused and 0 is
  never issued; and the counter read by \<^verbatim>\<open>totalCollections\<close> is the number of successful
  creations.
\<close>

theorem collection_ids_sequential:
  "map unat (created_ids (fst (run initial ts))) =
     [1 ..< Suc (length (created_ids (fst (run initial ts))))] \<and>
   distinct (created_ids (fst (run initial ts))) \<and>
   0 \<notin> set (created_ids (fst (run initial ts))) \<and>
   unat (totalCollections (snd (run initial ts))) = length (created_ids (fst (run initial ts)))"
proof -
  let ?ids = "created_ids (fst (run initial ts))"
  from run_created_ids [of initial ts]
  have seq: "map unat ?ids = [1 ..< Suc (length ?ids)]"
    and cnt: "unat (collectionCount (snd (run initial ts))) = length ?ids"
    by (simp_all add: initial_def)
  have "distinct (map unat ?ids)"
    unfolding seq by simp
  then have d: "distinct ?ids"
    by (rule distinct_map [THEN iffD1, THEN conjunct1])
  have "0 \<notin> set ?ids"
  proof
    assume "0 \<in> set ?ids"
    then have "unat (0 :: uint256) \<in> set (map unat ?ids)"
      by (simp only: set_map) (rule imageI)
    then show False
      unfolding seq by auto
  qed
  with seq d cnt show ?thesis
    by (simp add: totalCollections_def)
qed

theorem collection_ids_sequential_witness:
  "created_ids (fst (run initial (scenario @ [genesis_tx]))) = [1, 2]"
proof -
  let ?ids = "created_ids (fst (run initial (scenario @ [genesis_tx])))"
  have len: "length ?ids = 2"
    by (simp add: scenario_def genesis_tx_def transact_def createCollection_def mint_def
      fhe_ok_def checked_add_def initial_def Let_def principal_A_def principal_B_def
      principal_C_def word_le_nat_alt)
  have upt: "[1..<Suc 2] = [1, 2]"
    by (simp add: upt_rec)
  from collection_ids_sequential [of "scenario @ [genesis_tx]"] len upt
  have "map unat ?ids = map unat [1, 2 :: uint256]"
    by simp
  then show ?thesis
    by (simp only: inj_map_eq_map [OF inj_onI [of UNIV unat], simplified word_unat_eq_iff [symmetric]])
qed

text \<open>
  Claim C4. In every reachable ledger state the reserved token-id ranges
  \<open>[baseTokenId, baseTokenId + maxSupply - 1]\<close> of two distinct collections are disjoint.
  The token-id counter starts at 1; a successful \<^verbatim>\<open>createCollection\<close> hands its value out
  as the new collection's \<open>baseTokenId\<close> and advances it by exactly \<open>maxSupply\<close> (without
  wrapping); no other transaction changes it.
\<close>

theorem reserved_ranges_disjoint:
  assumes "reachable s"
  shows "(\<forall>i j. exists (collections s i) \<and> exists (collections s j) \<and> i \<noteq> j \<longrightarrow>
            reserved_range (collections s i) \<inter> reserved_range (collections s j) = {}) \<and>
         nextTokenId initial = 1 \<and>
         (\<forall>fhe sender nm m inp pf cid s'.
            transact (createCollection fhe sender nm m inp pf) s = (Inr cid, s') \<longrightarrow>
            baseTokenId (collections s' cid) = nextTokenId s \<and>
            maxSupply (collections s' cid) = m \<and>
            unat (nextTokenId s') = unat (nextTokenId s) + unat m) \<and>
         (\<forall>t. (\<forall>i. fst (exec t s) \<noteq> Created i) \<longrightarrow>
            nextTokenId (snd (exec t s)) = nextTokenId s)"
proof (intro conjI allI impI)
  fix i j
  assume a: "exists (collections s i) \<and> exists (collections s j) \<and> i \<noteq> j"
  from assms have inv: "ledger_inv s"
    by (rule reachable_inv)
  then have sup: "inv_supply s" and dis: "inv_disjoint s"
    by (simp_all add: ledger_inv_def)
  from dis a
  have "unat (baseTokenId (collections s i)) + unat (maxSupply (collections s i))
        \<le> unat (baseTokenId (collections s j)) \<or>
      unat (baseTokenId (collections s j)) + unat (maxSupply (collections s j))
        \<le> unat (baseTokenId (collections s i))"
    unfolding inv_disjoint_def by blast
  then show "reserved_range (collections s i) \<inter> reserved_range (collections s j) = {}"
    using a by (auto simp: reserved_range_iff [OF sup])
next
  show "nextTokenId initial = 1"
    by (simp add: initial_def)
next
  fix fhe sender nm m inp pf cid s'
  assume "transact (createCollection fhe sender nm m inp pf) s = (Inr cid, s')"
  then have c: "createCollection fhe sender nm m inp pf s = (Inr cid, s')"
    by (simp add: transact_Inr_iff)
  then obtain enc where s': "s' = create_post sender nm m enc s"
    and cid: "cid = collectionCount s + 1"
    and fit: "unat (nextTokenId s) + unat m < 2 ^ 256"
    by (auto simp: createCollection_Inr_iff)
  from s' cid show "baseTokenId (collections s' cid) = nextTokenId s"
    by simp
  from s' cid show "maxSupply (collections s' cid) = m"
    by simp
  from s' fit show "unat (nextTokenId s') = unat (nextTokenId s) + unat m"
    by (simp add: unat_checked_sum)
next
  fix t
  assume "\<forall>i. fst (exec t s) \<noteq> Created i"
  then show "nextTokenId (snd (exec t s)) = nextTokenId s"
    using exec_nextTokenId [of t s "fst (exec t s)" "snd (exec t s)"] by simp
qed

theorem reserved_ranges_disjoint_witness:
  "reserved_range (collections two_collections 1) \<inter>
     reserved_range (collections two_collections 2) = {} \<and>
   baseTokenId (collections two_collections 1) = 1 \<and>
   maxSupply (collections two_collections 1) = 2 \<and>
   baseTokenId (collections two_collections 2) = 3 \<and>
   maxSupply (collections two_collections 2) = 3"
proof -
  have ex: "exists (collections two_collections 1) \<and> exists (collections two_collections 2) \<and>
      (1 :: uint256) \<noteq> 2"
    by (simp add: two_collections_eq)
  from reserved_ranges_disjoint [OF reachable_two_collections, THEN conjunct1, rule_format, OF ex]
  show ?thesis
    by (simp add: two_collections_eq)
qed

text \<open>
  Claim C5. A call of \<^verbatim>\<open>setHiddenOwner\<close> fails with \<open>InvalidCollection\<close> when the
  collection does not exist, and with \<open>NotCollectionOwner\<close> when it exists and the caller
  is not its creator; in both cases the state, and so the stored handle, is unchanged.
  A call that succeeds was made by the creator and replaces the stored handle with the
  handle that the validation returned; and the creator's call succeeds whenever the
  collaborator validates the input and grants the two authorizations.
\<close>

theorem setHiddenOwner_only_creator:
  "(\<not> exists (collections s cid) \<longrightarrow>
      transact (setHiddenOwner fhe sender cid inp pf) s = (Inl InvalidCollection, s)) \<and>
   (exists (collections s cid) \<and> creator (collections s cid) \<noteq> sender \<longrightarrow>
      transact (setHiddenOwner fhe sender cid inp pf) s = (Inl NotCollectionOwner, s) \<and>
      hiddenOwner_view (snd (transact (setHiddenOwner fhe sender cid inp pf) s)) cid =
        hiddenOwner_view s cid) \<and>
   (\<forall>u s'. transact (setHiddenOwner fhe sender cid inp pf) s = (Inr u, s') \<longrightarrow>
      exists (collections s cid) \<and> creator (collections s cid) = sender \<and>
      (\<exists>enc. fromExternal fhe inp pf sender = Some enc \<and>
         hiddenOwner (collections s' cid) = enc \<and> hiddenOwner_view s' cid = Inr enc)) \<and>
   (\<forall>enc. exists (collections s cid) \<and> creator (collections s cid) = sender \<and>
      fromExternal fhe inp pf sender = Some enc \<and> allowThis fhe enc \<and> allow fhe enc sender \<longrightarrow>
      (\<exists>s'. transact (setHiddenOwner fhe sender cid inp pf) s = (Inr (), s') \<and>
         hiddenOwner_view s' cid = Inr enc))"
proof (intro conjI allI impI)
  assume "\<not> exists (collections s cid)"
  then show "transact (setHiddenOwner fhe sender cid inp pf) s = (Inl InvalidCollection, s)"
    by (simp add: transact_Inl_iff setHiddenOwner_missing)
next
  assume a: "exists (collections s cid) \<and> creator (collections s cid) \<noteq> sender"
  then show r: "transact (setHiddenOwner fhe sender cid inp pf) s = (Inl NotCollectionOwner, s)"
    by (simp add: transact_Inl_iff setHiddenOwner_not_owner)
  then show "hiddenOwner_view (snd (transact (setHiddenOwner fhe sender cid inp pf) s)) cid =
      hiddenOwner_view s cid"
    by simp
next
  fix u s'
  assume ok: "transact (setHiddenOwner fhe sender cid inp pf) s = (Inr u, s')"
  then show "exists (collections s cid)" and "creator (collections s cid) = sender"
    by (simp_all add: transact_Inr_iff setHiddenOwner_Inr_iff)
  from ok show "\<exists>enc. fromExternal fhe inp pf sender = Some enc \<and>
      hiddenOwner (collections s' cid) = enc \<and> hiddenOwner_view s' cid = Inr enc"
    by (auto simp: transact_Inr_iff setHiddenOwner_Inr_iff hiddenOwner_view_def)
next
  fix enc
  assume a: "exists (collections s cid) \<and> creator (collections s cid) = sender \<and>
    fromExternal fhe inp pf sender = Some enc \<and> allowThis fhe enc \<and> allow fhe enc sender"
  then have "transact (setHiddenOwner fhe sender cid inp pf) s = (Inr (), set_post cid enc s)"
    by (simp add: transact_Inr_iff setHiddenOwner_Inr_iff)
  moreover from a have "hiddenOwner_view (set_post cid enc s) cid = Inr enc"
    by (simp add: hiddenOwner_view_def)
  ultimately show "\<exists>s'. transact (setHiddenOwner fhe sender cid inp pf) s = (Inr (), s') \<and>
      hiddenOwner_view s' cid = Inr enc"
    by blast
qed

theorem setHiddenOwner_only_creator_witness:
  "transact (setHiddenOwner fhe_ok principal_B 5 88 []) genesis = (Inl InvalidCollection, genesis) \<and>
   transact (setHiddenOwner fhe_ok principal_B 1 88 []) genesis = (Inl NotCollectionOwner, genesis) \<and>
   hiddenOwner_view genesis 1 = Inr 77 \<and>
   (\<exists>s'. transact (setHiddenOwner fhe_ok principal_A 1 88 []) genesis = (Inr (), s') \<and>
      hiddenOwner_view s' 1 = Inr 88)"
proof -
  have missing: "\<not> exists (collections genesis 5)"
    by (simp add: genesis_eq zero_collection_def)
  have other: "exists (collections genesis 1) \<and> creator (collections genesis 1) \<noteq> principal_B"
    by (simp add: genesis_eq principal_A_def principal_B_def)
  have own: "exists (collections genesis 1) \<and> creator (collections genesis 1) = principal_A \<and>
      fromExternal fhe_ok 88 [] principal_A = Some 88 \<and> allowThis fhe_ok 88 \<and>
      allow fhe_ok 88 principal_A"
    by (simp add: genesis_eq fhe_ok_def)
  have view: "hiddenOwner_view genesis 1 = Inr 77"
    by (simp add: hiddenOwner_view_def genesis_eq)
  from setHiddenOwner_only_creator [of genesis 5 fhe_ok principal_B 88 "[]"] missing
  have "transact (setHiddenOwner fhe_ok principal_B 5 88 []) genesis =
      (Inl InvalidCollection, genesis)"
    by blast
  moreover from setHiddenOwner_only_creator [of genesis 1 fhe_ok principal_B 88 "[]"] other
  have "transact (setHiddenOwner fhe_ok principal_B 1 88 []) genesis =
      (Inl NotCollectionOwner, genesis)"
    by blast
  moreover from setHiddenOwner_only_creator [of genesis 1 fhe_ok principal_A 88 "[]"] own
  have "\<exists>s'. transact (setHiddenOwner fhe_ok principal_A 1 88 []) genesis = (Inr (), s') \<and>
      hiddenOwner_view s' 1 = Inr 88"
    by blast
  ultimately show ?thesis
    using view by simp
qed

text \<open>
  Claim C6. Every operation is atomic with respect to errors: when a call of
  \<^verbatim>\<open>createCollection\<close>, \<^verbatim>\<open>setHiddenOwner\<close> or \<^verbatim>\<open>mint\<close> fails, with whatever error,
  the whole ledger state after the call (counters, collection records, owner mapping,
  balances, token back-references and event log) is the state before it. The fourth
  conjunct says the same of a transaction of any of the three kinds. The errors the
  functions raise themselves come before any write (lemmas \<open>createCollection_checks_first\<close>,
  \<open>setHiddenOwner_checks_first\<close>, \<open>mint_checks_first\<close>); what is written before a later
  revert is discarded by the EVM.
\<close>

theorem failed_call_changes_nothing:
  "(transact (createCollection fhe sender nm m inp pf) s = (Inl e, s1) \<longrightarrow> s1 = s) \<and>
   (transact (setHiddenOwner fhe sender cid inp pf) s = (Inl e, s2) \<longrightarrow> s2 = s) \<and>
   (transact (mint sender cid) s = (Inl e, s3) \<longrightarrow> s3 = s) \<and>
   (exec t s = (Reverted e, s4) \<longrightarrow> s4 = s)"
proof (intro conjI impI)
  assume "exec t s = (Reverted e, s4)"
  then show "s4 = s"
    by (cases rule: exec_cases) simp_all
qed (simp_all add: transact_Inl_iff)

theorem failed_call_changes_nothing_witness:
  "transact (createCollection fhe_ok principal_A [] 2 77 []) genesis = (Inl EmptyName, genesis) \<and>
   transact (setHiddenOwner fhe_ok principal_B 1 88 []) genesis =
     (Inl NotCollectionOwner, genesis) \<and>
   transact (mint principal_B 2) genesis = (Inl InvalidCollection, genesis)"
proof -
  let ?c = "transact (createCollection fhe_ok principal_A [] 2 77 []) genesis"
  let ?h = "transact (setHiddenOwner fhe_ok principal_B 1 88 []) genesis"
  let ?m = "transact (mint principal_B 2) genesis"
  have c: "?c = (Inl EmptyName, snd ?c)"
    by (simp add: transact_def createCollection_def)
  have h: "?h = (Inl NotCollectionOwner, snd ?h)"
    by (simp add: transact_def setHiddenOwner_def onlyCollectionOwner_def genesis_eq
        principal_A_def principal_B_def)
  have m: "?m = (Inl InvalidCollection, snd ?m)"
    by (simp add: transact_def mint_def genesis_eq zero_collection_def)
  from c have "snd ?c = genesis"
    using failed_call_changes_nothing
      [where s = genesis and fhe = fhe_ok and sender = principal_A and nm = "[]" and m = 2
         and inp = 77 and pf = "[]" and e = EmptyName and ?s1.0 = "snd ?c"]
    by simp
  moreover from h have "snd ?h = genesis"
    using failed_call_changes_nothing
      [where s = genesis and fhe = fhe_ok and sender = principal_B and cid = 1
         and inp = 88 and pf = "[]" and e = NotCollectionOwner and ?s2.0 = "snd ?h"]
    by simp
  moreover from m have "snd ?m = genesis"
    using failed_call_changes_nothing
      [where s = genesis and sender = principal_B and cid = 2 and e = InvalidCollection
         and ?s3.0 = "snd ?m"]
    by simp
  ultimately show ?thesis
    using c h m by simp
qed

text \<open>
  Claim C7. After any sequence of transactions on the deployed contract, for every
  principal \<open>p\<close> other than the zero address, \<^verbatim>\<open>balanceOf(p)\<close> returns the number of
  successful calls of \<^verbatim>\<open>mint\<close> that \<open>p\<close> made, over all collections (0 when \<open>p\<close> never
  minted); \<^verbatim>\<open>balanceOf\<close> of the zero address fails with \<open>ZeroAddress\<close>.
\<close>

theorem balanceOf_counts_mints:
  "(p \<noteq> 0 \<longrightarrow>
      (\<exists>b. balanceOf (snd (run initial ts)) p = Inr b \<and>
         unat b = mints_by p ts (fst (run initial ts)))) \<and>
   balanceOf (snd (run initial ts)) 0 = Inl ZeroAddress"
proof -
  from run_balance [of initial ts p]
  have "unat (balances (snd (run initial ts)) p) = mints_by p ts (fst (run initial ts))"
    by (simp add: initial_def)
  then show ?thesis
    by (simp add: balanceOf_def)
qed

theorem balanceOf_counts_mints_witness:
  "balanceOf (snd (run initial scenario)) principal_B = Inr 1 \<and>
   mints_by principal_B scenario (fst (run initial scenario)) = 1 \<and>
   balanceOf (snd (run initial scenario)) principal_A = Inr 0 \<and>
   mints_by principal_A scenario (fst (run initial scenario)) = 0"
proof -
  have nz: "principal_B \<noteq> 0" "principal_A \<noteq> 0"
    by (simp_all add: principal_A_def principal_B_def)
  have bal: "balanceOf (snd (run initial scenario)) principal_B = Inr 1"
      "balanceOf (snd (run initial scenario)) principal_A = Inr 0"
    using nz by (simp_all add: balanceOf_def scenario_balances)
  from balanceOf_counts_mints [of principal_B scenario] nz bal
  have "mints_by principal_B scenario (fst (run initial scenario)) = 1"
    by simp
  moreover from balanceOf_counts_mints [of principal_A scenario] nz bal
  have "mints_by principal_A scenario (fst (run initial scenario)) = 0"
    by simp
  ultimately show ?thesis
    using bal by simp
qed




text \<open>
  Claim C9. After any sequence of transactions on the deployed contract (sent, as every
  transaction is, from a non-zero address), the sum of \<^verbatim>\<open>balanceOf\<close> over all non-zero
  principals equals the sum of \<open>minted\<close> over all existing collections, and both equal
  the number of successful calls of \<^verbatim>\<open>mint\<close> in the sequence. The states after such
  sequences are the states the contract reaches by transactions with a sender, so the
  equality holds in each of them and is preserved by every such transaction.
\<close>

theorem balances_sum_to_minted:
  assumes "\<forall>t\<in>set ts. tx_sender t \<noteq> 0"
  shows "balance_sum (snd (run initial ts)) = total_minted (snd (run initial ts)) \<and>
    total_minted (snd (run initial ts)) = length (minted_tokens (fst (run initial ts)))"
proof -
  let ?s = "snd (run initial ts)"
  have "reachable ?s"
    using reachable_initial by (rule reachable_run)
  then have "inv_balance ?s"
    using reachable_inv [of ?s] by (simp add: ledger_inv_def)
  moreover have "inv_owners ?s"
    using initial_inv initial_inv_owners assms by (rule run_inv_owners)
  ultimately have "balance_sum ?s = total_minted ?s"
    by (simp add: balance_sum_total inv_balance_def)
  moreover have "total_minted ?s = length (minted_tokens (fst (run initial ts)))"
    using run_total_minted [OF initial_inv, of ts] by (simp add: initial_total_minted)
  ultimately show ?thesis
    by simp
qed

theorem balances_sum_to_minted_witness:
  "balance_sum (snd (run initial scenario)) = 2 \<and>
   total_minted (snd (run initial scenario)) = 2"
proof -
  have senders: "\<forall>t\<in>set scenario. tx_sender t \<noteq> 0"
    by (simp add: scenario_def genesis_tx_def principal_A_def principal_B_def principal_C_def)
  from balances_sum_to_minted [OF senders] show ?thesis
    by (simp add: scenario_outcomes)
qed

text \<open>
  Claim C10. After any sequence of transactions on the deployed contract (sent from
  non-zero addresses), and for every token id: \<^verbatim>\<open>tokenExists\<close> returns true if and only
  if some successful \<^verbatim>\<open>mint\<close> of the sequence returned that id, if and only if
  \<^verbatim>\<open>ownerOf\<close> succeeds, if and only if \<^verbatim>\<open>tokenCollection\<close> succeeds; what
  \<^verbatim>\<open>tokenCollection\<close> returns is the id of an existing collection whose reserved range
  contains the token id; and for a token id never minted, \<^verbatim>\<open>ownerOf\<close> and
  \<^verbatim>\<open>tokenCollection\<close> fail with \<open>InvalidToken\<close>, while \<^verbatim>\<open>tokenExists\<close> returns false.
\<close>

theorem token_records_consistent:
  assumes "\<forall>t\<in>set ts. tx_sender t \<noteq> 0" and "s = snd (run initial ts)"
  shows "(tokenExists s tok \<longleftrightarrow> tok \<in> set (minted_tokens (fst (run initial ts)))) \<and>
    (tokenExists s tok \<longleftrightarrow> (\<exists>a. ownerOf s tok = Inr a)) \<and>
    (tokenExists s tok \<longleftrightarrow> (\<exists>c. tokenCollection s tok = Inr c)) \<and>
    (\<forall>c. tokenCollection s tok = Inr c \<longrightarrow>
       exists (collections s c) \<and> tok \<in> reserved_range (collections s c)) \<and>
    (tok \<notin> set (minted_tokens (fst (run initial ts))) \<longrightarrow>
       ownerOf s tok = Inl InvalidToken \<and> tokenCollection s tok = Inl InvalidToken \<and>
       \<not> tokenExists s tok)"
proof -
  have "reachable s"
    unfolding assms(2) using reachable_initial by (rule reachable_run)
  then have inv: "ledger_inv s"
    by (rule reachable_inv)
  have own: "inv_owners s"
    unfolding assms(2) using initial_inv initial_inv_owners assms(1) by (rule run_inv_owners)
  from inv have sup: "inv_supply s" and tok: "inv_tokens s"
    by (simp_all add: ledger_inv_def)
  from own have same: "owners s tok \<noteq> 0 \<longleftrightarrow> tokenToCollection s tok \<noteq> 0"
    by (simp add: inv_owners_def)
  have minted: "tokenExists s tok \<longleftrightarrow> tok \<in> set (minted_tokens (fst (run initial ts)))"
    using run_owners [OF assms(1), of initial tok]
    by (simp add: tokenExists_def assms(2) initial_def)
  have owner: "tokenExists s tok \<longleftrightarrow> (\<exists>a. ownerOf s tok = Inr a)"
    by (simp add: tokenExists_def ownerOf_def Let_def)
  have coll: "tokenExists s tok \<longleftrightarrow> (\<exists>c. tokenCollection s tok = Inr c)"
    using same by (simp add: tokenExists_def tokenCollection_def Let_def)
  have range: "exists (collections s c) \<and> tok \<in> reserved_range (collections s c)"
    if "tokenCollection s tok = Inr c" for c
  proof -
    from that have c: "tokenToCollection s tok = c" and nz: "tokenToCollection s tok \<noteq> 0"
      by (simp_all add: tokenCollection_def Let_def split: if_splits)
    with tok have "exists (collections s c)" and "tok \<in> minted_range (collections s c)"
      by (auto simp: inv_tokens_def)
    with sup show ?thesis
      by (simp add: minted_in_reserved)
  qed
  have never: "ownerOf s tok = Inl InvalidToken \<and> tokenCollection s tok = Inl InvalidToken \<and>
      \<not> tokenExists s tok"
    if "tok \<notin> set (minted_tokens (fst (run initial ts)))"
  proof -
    from that minted have "owners s tok = 0"
      by (simp add: tokenExists_def)
    with same show ?thesis
      by (simp add: tokenExists_def ownerOf_def tokenCollection_def Let_def)
  qed
  from minted owner coll range never show ?thesis
    by blast
qed

theorem token_records_consistent_witness:
  "tokenExists (snd (run initial scenario)) 1 \<and>
   ownerOf (snd (run initial scenario)) 1 = Inr principal_B \<and>
   tokenCollection (snd (run initial scenario)) 1 = Inr 1 \<and>
   1 \<in> reserved_range (collections (snd (run initial scenario)) 1) \<and>
   \<not> tokenExists (snd (run initial scenario)) 3 \<and>
   ownerOf (snd (run initial scenario)) 3 = Inl InvalidToken \<and>
   tokenCollection (snd (run initial scenario)) 3 = Inl InvalidToken"
proof -
  have senders: "\<forall>t\<in>set scenario. tx_sender t \<noteq> 0"
    by (simp add: scenario_def genesis_tx_def principal_A_def principal_B_def principal_C_def)
  have nz: "principal_B \<noteq> 0"
    by (simp add: principal_B_def)
  have views: "ownerOf (snd (run initial scenario)) 1 = Inr principal_B"
      "tokenCollection (snd (run initial scenario)) 1 = Inr 1"
    using nz by (simp_all add: ownerOf_def tokenCollection_def scenario_tokens)
  have in1: "(1 :: uint256) \<in> set (minted_tokens (fst (run initial scenario)))"
    and out3: "(3 :: uint256) \<notin> set (minted_tokens (fst (run initial scenario)))"
    by (simp_all add: scenario_outcomes)
  from token_records_consistent [OF senders refl, of 1] in1 views
  have "tokenExists (snd (run initial scenario)) 1 \<and>
      1 \<in> reserved_range (collections (snd (run initial scenario)) 1)"
    by blast
  moreover from token_records_consistent [OF senders refl, of 3] out3
  have "\<not> tokenExists (snd (run initial scenario)) 3 \<and>
      ownerOf (snd (run initial scenario)) 3 = Inl InvalidToken \<and>
      tokenCollection (snd (run initial scenario)) 3 = Inl InvalidToken"
    by blast
  ultimately show ?thesis
    using views by simp
qed

end
